theory Spec2Isabelle
  imports Complex_Main
begin

text \<open>
  A model of the coverage reporter: package \<open>reporter/internal\<close> (\<open>Report\<close>,
  \<open>AddDir\<close>, \<open>AddFile\<close>, \<open>NewTemplateListItemData\<close> and the escaping
  functions), the earlier package \<open>reporter\<close> (\<open>GoDir.write\<close>, \<open>GoFile.write\<close>,
  \<open>openHeadingHTML\<close>, \<open>fileItemHTML\<close>) and \<open>ParseCutlines\<close>. The definitions
  come first, each named after the function it models; then the notions of the
  specification; then the properties, one section per component.
\<close>

section \<open>Strings and library functions the reporter calls\<close>

text \<open>
  A Go string is a sequence of bytes; it is modelled as \<open>string\<close> (a list of 8-bit
  characters). The functions of this section are the parts of the Go standard library
  that the reporter calls on strings, at the shapes in which it calls them.
\<close>

text \<open>
  \<open>strings.Split(s, sep)\<close> with a separator of one byte (the reporter splits on
  \<open>"\n"\<close> and on \<open>","\<close>): the pieces between the occurrences of the separator, so
  one piece more than there are separators.
\<close>

function Split :: "string \<Rightarrow> char \<Rightarrow> string list" where
  "Split s sep =
     (case dropWhile (\<lambda>c. c \<noteq> sep) s of
        [] \<Rightarrow> [s]
      | _ # rest \<Rightarrow> takeWhile (\<lambda>c. c \<noteq> sep) s # Split rest sep)"
  by pat_completeness auto
termination
proof (relation "measure (\<lambda>(s, sep). length s)")
  show "wf (measure (\<lambda>(s, sep). length s))" by simp
next
  fix s :: string and sep x21 x22
  assume "dropWhile (\<lambda>c. c \<noteq> sep) s = x21 # x22"
  then have "length x22 < length (dropWhile (\<lambda>c. c \<noteq> sep) s)" by simp
  also have "\<dots> \<le> length s" by (rule length_dropWhile_le)
  finally show "((x22, sep), (s, sep)) \<in> measure (\<lambda>(s, sep). length s)" by simp
qed

declare Split.simps [simp del]

text \<open>
  \<open>strings.ReplaceAll(s, old, new)\<close> with \<open>old\<close> of one byte, which is how every call
  in \<open>GoFile.write\<close> uses it: each occurrence of the byte is replaced, left to right.
\<close>

fun ReplaceAll :: "string \<Rightarrow> char \<Rightarrow> string \<Rightarrow> string" where
  "ReplaceAll [] old new = []"
| "ReplaceAll (c # cs) old new =
     (if c = old then new @ ReplaceAll cs old new else c # ReplaceAll cs old new)"

text \<open>
  The number of bytes a \<open>for i := range line\<close> loop steps over at the head of a
  non-empty string: the length of the UTF-8 encoding that starts there when the bytes
  are a well-formed encoding of a code point, and one byte otherwise (Go language
  specification, \<open>for\<close> statements with \<open>range\<close> clause over a string).
\<close>

definition cont_byte :: "char \<Rightarrow> bool" where
  "cont_byte c = (0x80 \<le> (of_char c :: nat) \<and> (of_char c :: nat) \<le> 0xBF)"

definition in_range :: "nat \<Rightarrow> nat \<Rightarrow> char \<Rightarrow> bool" where
  "in_range lo hi c = (lo \<le> (of_char c :: nat) \<and> (of_char c :: nat) \<le> hi)"

fun rune_width :: "string \<Rightarrow> nat" where
  "rune_width [] = 0"
| "rune_width (b # bs) =
     (let b0 = (of_char b :: nat) in
      if b0 < 0x80 then 1
      else if 0xC2 \<le> b0 \<and> b0 \<le> 0xDF then
        (case bs of s1 # _ \<Rightarrow> if cont_byte s1 then 2 else 1 | _ \<Rightarrow> 1)
      else if 0xE0 \<le> b0 \<and> b0 \<le> 0xEF then
        (case bs of
           s1 # s2 # _ \<Rightarrow>
             if (if b0 = 0xE0 then in_range 0xA0 0xBF s1
                 else if b0 = 0xED then in_range 0x80 0x9F s1
                 else cont_byte s1) \<and> cont_byte s2
             then 3 else 1
         | _ \<Rightarrow> 1)
      else if 0xF0 \<le> b0 \<and> b0 \<le> 0xF4 then
        (case bs of
           s1 # s2 # s3 # _ \<Rightarrow>
             if (if b0 = 0xF0 then in_range 0x90 0xBF s1
                 else if b0 = 0xF4 then in_range 0x80 0x8F s1
                 else cont_byte s1) \<and> cont_byte s2 \<and> cont_byte s3
             then 4 else 1
         | _ \<Rightarrow> 1)
      else 1)"

text \<open>\<open>fmt\<close>'s verb \<open>%d\<close> on an \<open>int\<close>: the decimal digits, with a minus sign if negative.\<close>

fun digits :: "nat \<Rightarrow> string" where
  "digits n =
     (if n < 10 then [char_of (48 + n)]
      else digits (n div 10) @ [char_of (48 + n mod 10)])"

declare digits.simps [simp del]

definition fmt_d :: "int \<Rightarrow> string" where
  "fmt_d i = (if i < 0 then CHR ''-'' # digits (nat (- i)) else digits (nat i))"

text \<open>
  \<open>filepath.Base\<close> on a system whose path separator is the slash: the last element of
  the path, after trailing slashes are removed.
\<close>

definition strip_trailing_slashes :: "string \<Rightarrow> string" where
  "strip_trailing_slashes p = rev (dropWhile (\<lambda>c. c = CHR ''/'') (rev p))"

definition Base :: "string \<Rightarrow> string" where
  "Base path =
     (if path = [] then ''.''
      else
        let p = strip_trailing_slashes path;
            e = rev (takeWhile (\<lambda>c. c \<noteq> CHR ''/'') (rev p))
        in if e = [] then ''/'' else e)"

section \<open>Coverage blocks and line annotations\<close>

text \<open>
  A profile block as the reporter reads it: only the line range and the execution count
  are used. Go's \<open>int\<close> is modelled as \<open>int\<close>: the reporter compares these fields
  and never computes with them, and a line number is an index into the lines of a file
  held in memory plus one, so nothing can wrap around.
\<close>

record ProfileBlock =
  StartLine :: int
  EndLine :: int
  Count :: int

text \<open>
  The three ways \<open>WriteHTMLEscapedLine\<close> (and the same chain in \<open>GoFile.write\<close>)
  renders a line, chosen by the count pointer: \<open>nil\<close>, a zero count, any other count.
\<close>

datatype Annotation = NotInstrumented | Uncovered | Covered int

fun annotation :: "int option \<Rightarrow> Annotation" where
  "annotation None = NotInstrumented"
| "annotation (Some c) = (if c = 0 then Uncovered else Covered c)"

subsection \<open>Package \<open>internal\<close>: \<open>WriteHTMLEscapedCode\<close>, \<open>WriteHTMLEscapedLine\<close>\<close>

definition escape_byte :: "char \<Rightarrow> string" where
  "escape_byte b =
     (if b = CHR ''>'' then ''&gt;''
      else if b = CHR ''<'' then ''&lt;''
      else if b = CHR ''&'' then ''&amp;''
      else if b = CHR 0x09 then ''    ''
      else [b])"

text \<open>
  \<open>for i := range line { switch b := line[i]; b { ... } }\<close>: the loop visits the index
  of the first byte of each code point, and the body writes the escape of that one byte.
  The writer is a \<open>bufio.Writer\<close> over a \<open>strings.Builder\<close>, whose writes do
  not fail, so the result is the text written.
\<close>

function WriteHTMLEscapedCode :: "string \<Rightarrow> string" where
  "WriteHTMLEscapedCode [] = []"
| "WriteHTMLEscapedCode (b # bs) =
     escape_byte b @ WriteHTMLEscapedCode (drop (rune_width (b # bs) - 1) bs)"
  by pat_completeness auto
termination
  by (relation "measure length") auto

definition WriteHTMLEscapedLine :: "int \<Rightarrow> int option \<Rightarrow> string \<Rightarrow> string" where
  \<open>WriteHTMLEscapedLine lineNumber count line =
     (case annotation count of
        NotInstrumented \<Rightarrow>
          ''<div class="line-number">'' @ fmt_d lineNumber @
          ''</div><div class="covered-count"></div><pre class="line">''
      | Uncovered \<Rightarrow>
          ''<div class="line-number">'' @ fmt_d lineNumber @
          ''</div><div class="covered-count uncovered"></div><pre class="line uncovered">''
      | Covered c \<Rightarrow>
          ''<div class="line-number">'' @ fmt_d lineNumber @
          ''</div><div class="covered-count covered">'' @ fmt_d c @
          ''x</div><pre class="line covered">'')
     @ WriteHTMLEscapedCode line @ ''</pre>'' @ [CHR 0x0A]\<close>

subsection \<open>Package \<open>internal\<close>: the annotation loop of \<open>TemplateData.AddFile\<close>\<close>

text \<open>
  One iteration of the loop body, for the cursor \<open>idxProfile\<close> and the line number:
  the new cursor and the count pointer. \<open>profile\<close> is the local copy of the block; it
  keeps the old block when the cursor moves past the last one.
\<close>

definition AddFile_line :: "ProfileBlock list \<Rightarrow> nat \<Rightarrow> int \<Rightarrow> nat \<times> int option" where
  "AddFile_line Profile idxProfile lineNumber =
     (if idxProfile < length Profile then
        let profile = Profile ! idxProfile;
            (idxProfile', profile') =
              (if EndLine profile < lineNumber then
                 (idxProfile + 1,
                  if idxProfile + 1 < length Profile then Profile ! (idxProfile + 1) else profile)
               else (idxProfile, profile))
        in (idxProfile',
            if EndLine profile' \<ge> lineNumber \<and> StartLine profile' \<le> lineNumber
            then Some (Count (Profile ! idxProfile')) else None)
      else (idxProfile, None))"

text \<open>
  The loop over the lines, from the cursor and the line number of the first of them:
  the count pointer chosen for each line, in order.
\<close>

fun AddFile_loop :: "ProfileBlock list \<Rightarrow> nat \<Rightarrow> int \<Rightarrow> string list \<Rightarrow> int option list" where
  "AddFile_loop Profile idxProfile lineNumber [] = []"
| "AddFile_loop Profile idxProfile lineNumber (line # rest) =
     (let (idxProfile', count) = AddFile_line Profile idxProfile lineNumber
      in count # AddFile_loop Profile idxProfile' (lineNumber + 1) rest)"

definition AddFile_counts :: "ProfileBlock list \<Rightarrow> string \<Rightarrow> int option list" where
  "AddFile_counts Profile src = AddFile_loop Profile 0 1 (Split src (CHR 0x0A))"

text \<open>The text of \<open>view.Lines\<close>: each line written with its number and its count.\<close>

fun write_lines :: "int \<Rightarrow> int option list \<Rightarrow> string list \<Rightarrow> string" where
  "write_lines lineNumber (count # counts) (line # rest) =
     WriteHTMLEscapedLine lineNumber count line @ write_lines (lineNumber + 1) counts rest"
| "write_lines lineNumber _ _ = []"

definition AddFile_Lines :: "ProfileBlock list \<Rightarrow> string \<Rightarrow> string" where
  "AddFile_Lines Profile src =
     write_lines 1 (AddFile_counts Profile src) (Split src (CHR 0x0A))"

subsection \<open>Package \<open>reporter\<close>: the annotation loop and the escaping of \<open>GoFile.write\<close>\<close>

definition GoFile_write_line :: "ProfileBlock list \<Rightarrow> nat \<Rightarrow> int \<Rightarrow> nat \<times> int option" where
  "GoFile_write_line profile idxProfile lineNumber =
     (if idxProfile < length profile then
        (if EndLine (profile ! idxProfile) < lineNumber then
           (idxProfile + 1,
            if idxProfile + 1 < length profile then Some (Count (profile ! (idxProfile + 1)))
            else None)
         else (idxProfile, Some (Count (profile ! idxProfile))))
      else (idxProfile, None))"

fun GoFile_write_loop :: "ProfileBlock list \<Rightarrow> nat \<Rightarrow> int \<Rightarrow> string list \<Rightarrow> int option list" where
  "GoFile_write_loop profile idxProfile lineNumber [] = []"
| "GoFile_write_loop profile idxProfile lineNumber (code # rest) =
     (let (idxProfile', count) = GoFile_write_line profile idxProfile lineNumber
      in count # GoFile_write_loop profile idxProfile' (lineNumber + 1) rest)"

definition GoFile_write_counts :: "ProfileBlock list \<Rightarrow> string \<Rightarrow> int option list" where
  "GoFile_write_counts profile src = GoFile_write_loop profile 0 1 (Split src (CHR 0x0A))"

text \<open>The four \<open>strings.ReplaceAll\<close> calls on a line, in the order of the source.\<close>

definition GoFile_write_escape :: "string \<Rightarrow> string" where
  "GoFile_write_escape code =
     (let code1 = ReplaceAll code (CHR ''>'') ''&gt;'';
          code2 = ReplaceAll code1 (CHR ''<'') ''&lt;'';
          code3 = ReplaceAll code2 (CHR ''&'') ''&amp;'';
          code4 = ReplaceAll code3 (CHR 0x09) ''    ''
      in code4)"

section \<open>Percentages and cutlines\<close>

text \<open>
  A \<open>float64\<close> as far as comparing goes: a finite value is the real number it stands
  for (both zeros are the number 0), and there are the two infinities and NaN, which
  \<open>strconv.ParseFloat\<close> accepts as cutlines. \<open>f64_less\<close> is Go's \<open><\<close> and \<open>f64_le\<close>
  its \<open><=\<close>: every comparison with NaN is false.
\<close>

datatype float64 = NaN | NegInf | Finite real | PosInf

fun f64_less :: "float64 \<Rightarrow> float64 \<Rightarrow> bool" where
  "f64_less NaN _ = False"
| "f64_less _ NaN = False"
| "f64_less _ NegInf = False"
| "f64_less PosInf _ = False"
| "f64_less NegInf _ = True"
| "f64_less (Finite x) (Finite y) = (x < y)"
| "f64_less (Finite x) PosInf = True"

fun f64_le :: "float64 \<Rightarrow> float64 \<Rightarrow> bool" where
  "f64_le NaN _ = False"
| "f64_le _ NaN = False"
| "f64_le NegInf _ = True"
| "f64_le _ PosInf = True"
| "f64_le _ NegInf = False"
| "f64_le PosInf _ = False"
| "f64_le (Finite x) (Finite y) = (x \<le> y)"

record Cutlines =
  Safe :: float64
  Warning :: float64

text \<open>
  Arithmetic on \<open>float64\<close>: an operation gives the exact result rounded to the nearest
  float64 value, a tie going to the value with an even significand. Around a number
  \<open>x\<close> the float64 values are the multiples of \<open>2 ^ e\<close>, where \<open>e\<close> is the
  exponent of \<open>x\<close> less 52, the exponent being at least \<open>-1022\<close> (below that are the
  subnormal numbers). Overflow to an infinity is left out: the operands below are
  \<open>int\<close> values and 100, far from the largest float64.
\<close>

definition round_half_even :: "real \<Rightarrow> int" where
  "round_half_even y =
     (let f = \<lfloor>y\<rfloor> in
      if y - of_int f < 1 / 2 then f
      else if y - of_int f > 1 / 2 then f + 1
      else if even f then f else f + 1)"

definition float64_exp :: "real \<Rightarrow> int" where
  "float64_exp x = max \<lfloor>log 2 \<bar>x\<bar>\<rfloor> (- 1022) - 52"

definition float64_round :: "real \<Rightarrow> real" where
  "float64_round x =
     (if x = 0 then 0
      else of_int (round_half_even (x / 2 powr of_int (float64_exp x)))
             * 2 powr of_int (float64_exp x))"

text \<open>
  \<open>float64(numStmtCovered) / float64(numStmt) * 100\<close>, as \<open>openHeadingHTML\<close> and
  \<open>fileItemHTML\<close> of package \<open>reporter\<close> compute it: the two conversions, the
  division and the multiplication each round.
\<close>

definition openHeadingHTML_percent :: "int \<Rightarrow> int \<Rightarrow> real" where
  "openHeadingHTML_percent numStmtCovered numStmt =
     (if numStmt = 0 then 0
      else float64_round
             (float64_round
                (float64_round (of_int numStmtCovered) / float64_round (of_int numStmt))
              * 100))"

definition fileItemHTML_percent :: "int \<Rightarrow> int \<Rightarrow> real" where
  "fileItemHTML_percent numStmtCovered numStmt =
     (if numStmt = 0 then 0
      else float64_round
             (float64_round
                (float64_round (of_int numStmtCovered) / float64_round (of_int numStmt))
              * 100))"

text \<open>The class \<open>fileItemHTML\<close> gives a list entry: fixed cutlines, 70 and 40.\<close>

definition fileItemHTML_class :: "int \<Rightarrow> int \<Rightarrow> string" where
  "fileItemHTML_class numStmtCovered numStmt =
     (if numStmt = 0 then []
      else
        let percent =
              float64_round
                (float64_round
                   (float64_round (of_int numStmtCovered) / float64_round (of_int numStmt))
                 * 100)
        in if percent > 70 then ''safe''
           else if percent < 40 then ''danger''
           else ''warning'')"

section \<open>Package \<open>internal\<close>: the tree and the template data\<close>

text \<open>
  The tree's types are declared outside the files at hand; the records below hold the
  fields that \<open>Report\<close>, \<open>AddDir\<close>, \<open>AddFile\<close> and \<open>NewTemplateListItemData\<close>
  read. The method \<open>GoListItem.Percent\<close> is declared there too: it is a parameter
  \<open>Percent\<close> of every function that calls it.
\<close>

record GoListItem =
  ID :: string
  Title :: string
  RelPkgPath :: string
  StmtCoveredCount :: int
  StmtCount :: int

record GoFile =
  FileItem :: GoListItem
  ABSPath :: string
  Profile :: "ProfileBlock list"

datatype GoDir = GoDir (DirItem: GoListItem) (SubDirs: "GoDir list") (Files: "GoFile list")

text \<open>
  The view records, without the breadcrumb \<open>Links\<close> and without the strings
  \<open>Percent\<close> and \<open>Progress\<close> (a percentage printed with one decimal): they do not
  influence which views are made, their order, or any other field.
\<close>

record TemplateListItemData =
  ClassName :: string
  ItemID :: string
  ItemTitle :: string
  ItemNumStmtCovered :: int
  ItemNumStmt :: int

record TemplateViewData =
  ViewID :: string
  NumStmtCovered :: int
  NumStmt :: int
  Items :: "TemplateListItemData list"
  Lines :: string
  IsDir :: bool

record TemplateData =
  Views :: "TemplateViewData list"
  InitialID :: string
  DataCutlines :: Cutlines

datatype error = CantRead string

definition NewTemplateListItemData ::
  "(GoListItem \<Rightarrow> float64) \<Rightarrow> GoListItem \<Rightarrow> Cutlines \<Rightarrow> TemplateListItemData" where
  "NewTemplateListItemData Percent item cutlines =
     (let percent = Percent item;
          className =
            (if StmtCount item > 0 then
               (if f64_less percent (Warning cutlines) then ''danger''
                else if f64_less percent (Safe cutlines) then ''warning''
                else ''safe'')
             else [])
      in \<lparr>ClassName = className, ItemID = ID item, ItemTitle = Title item,
          ItemNumStmtCovered = StmtCoveredCount item, ItemNumStmt = StmtCount item\<rparr>)"

text \<open>
  \<open>AddFile\<close>: \<open>ReadFile\<close> is the file system (\<open>os.ReadFile\<close>; \<open>None\<close> when the
  file cannot be read). The view is appended to \<open>td.Views\<close>; its \<open>Lines\<close> are the
  text the loop writes. The writes go to a buffer in memory and cannot fail.
\<close>

definition AddFile ::
  "(string \<Rightarrow> string option) \<Rightarrow> GoFile \<Rightarrow> TemplateData \<Rightarrow> error + TemplateData" where
  "AddFile ReadFile file td =
     (case ReadFile (ABSPath file) of
        None \<Rightarrow> Inl (CantRead (RelPkgPath (FileItem file)))
      | Some src \<Rightarrow>
          Inr (td\<lparr>Views := Views td @
            [\<lparr>ViewID = ID (FileItem file),
              NumStmtCovered = StmtCoveredCount (FileItem file),
              NumStmt = StmtCount (FileItem file),
              Items = [],
              Lines = AddFile_Lines (Profile file) src,
              IsDir = False\<rparr>]\<rparr>))"

text \<open>
  \<open>view.Items = append(view.Items, item)\<close>, where \<open>view\<close> points to the element of
  \<open>td.Views\<close> at index \<open>k\<close>.
\<close>

definition append_item :: "nat \<Rightarrow> TemplateListItemData \<Rightarrow> TemplateData \<Rightarrow> TemplateData" where
  "append_item k item td =
     td\<lparr>Views := (Views td)[k := (Views td ! k)\<lparr>Items := Items (Views td ! k) @ [item]\<rparr>]\<rparr>"

text \<open>The loop of \<open>AddDir\<close> over \<open>dir.Files\<close>; it returns at the first error.\<close>

fun AddDir_files ::
  "(GoListItem \<Rightarrow> float64) \<Rightarrow> (string \<Rightarrow> string option) \<Rightarrow> nat \<Rightarrow> GoFile list \<Rightarrow>
   TemplateData \<Rightarrow> error + TemplateData" where
  "AddDir_files Percent ReadFile k [] td = Inr td"
| "AddDir_files Percent ReadFile k (file # rest) td =
     (case AddFile ReadFile file td of
        Inl err \<Rightarrow> Inl err
      | Inr td' \<Rightarrow>
          AddDir_files Percent ReadFile k rest
            (append_item k (NewTemplateListItemData Percent (FileItem file) (DataCutlines td')) td'))"

text \<open>
  \<open>AddDir\<close>, and its loop over \<open>dir.SubDirs\<close>. The directory's view is appended
  first, at index \<open>k\<close>; the loops then add the views of the children and the items of
  the directory's view.
\<close>

fun AddDir ::
  "(GoListItem \<Rightarrow> float64) \<Rightarrow> (string \<Rightarrow> string option) \<Rightarrow> GoDir \<Rightarrow>
   TemplateData \<Rightarrow> error + TemplateData"
and AddDir_subDirs ::
  "(GoListItem \<Rightarrow> float64) \<Rightarrow> (string \<Rightarrow> string option) \<Rightarrow> nat \<Rightarrow> GoDir list \<Rightarrow>
   TemplateData \<Rightarrow> error + TemplateData" where
  "AddDir Percent ReadFile (GoDir item dirs fls) td =
     (let k = length (Views td);
          view = \<lparr>ViewID = ID item, NumStmtCovered = StmtCoveredCount item,
                  NumStmt = StmtCount item, Items = [], Lines = [], IsDir = True\<rparr>;
          td1 = td\<lparr>Views := Views td @ [view]\<rparr>
      in case AddDir_subDirs Percent ReadFile k dirs td1 of
           Inl err \<Rightarrow> Inl err
         | Inr td2 \<Rightarrow> AddDir_files Percent ReadFile k fls td2)"
| "AddDir_subDirs Percent ReadFile k [] td = Inr td"
| "AddDir_subDirs Percent ReadFile k (subDir # rest) td =
     (case AddDir Percent ReadFile subDir td of
        Inl err \<Rightarrow> Inl err
      | Inr td' \<Rightarrow>
          AddDir_subDirs Percent ReadFile k rest
            (append_item k (NewTemplateListItemData Percent (DirItem subDir) (DataCutlines td')) td'))"

text \<open>
  The loop of \<open>Report\<close> that chooses the initial directory:
  \<open>for len(initialDir.SubDirs) == 1 && len(initialDir.Files) == 0\<close>.
\<close>

function Report_descend :: "GoDir \<Rightarrow> GoDir" where
  "Report_descend initialDir =
     (if length (SubDirs initialDir) = 1 \<and> length (Files initialDir) = 0
      then Report_descend (SubDirs initialDir ! 0)
      else initialDir)"
  by pat_completeness auto
termination
proof (relation "measure size")
  show "wf (measure size)" by simp
next
  fix initialDir :: GoDir
  assume "length (SubDirs initialDir) = 1 \<and> length (Files initialDir) = 0"
  then obtain item d where "initialDir = GoDir item [d] []"
    by (cases initialDir) (auto simp: length_Suc_conv)
  then show "(SubDirs initialDir ! 0, initialDir) \<in> measure size" by simp
qed

declare Report_descend.simps [simp del]

record GoProject =
  RootPath :: string
  ProjectCutlines :: Cutlines

text \<open>
  \<open>Report\<close> up to the call of the template: the initial directory, and the template
  data. \<open>rootDir\<close> is the directory \<open>gp.Root()\<close> returns.
\<close>

definition Report_initialDir :: "GoProject \<Rightarrow> GoDir \<Rightarrow> GoDir" where
  "Report_initialDir gp rootDir =
     (if RootPath gp = ''.'' then Report_descend rootDir else rootDir)"

definition Report ::
  "(GoListItem \<Rightarrow> float64) \<Rightarrow> (string \<Rightarrow> string option) \<Rightarrow> GoProject \<Rightarrow> GoDir \<Rightarrow>
   error + TemplateData" where
  "Report Percent ReadFile gp rootDir =
     (let initialDir = Report_initialDir gp rootDir;
          data = \<lparr>Views = [], InitialID = ID (DirItem initialDir),
                  DataCutlines = ProjectCutlines gp\<rparr>
      in AddDir Percent ReadFile initialDir data)"

section \<open>Package \<open>reporter\<close>: identifiers and cutlines\<close>

record GoFile_reporter =
  filename :: string
  file_numStmtCovered :: int
  file_numStmt :: int

datatype GoDir_reporter =
  GoDir_reporter (dirname: string) (subDirs: "GoDir_reporter list")
    (files: "GoFile_reporter list") (dir_numStmtCovered: int) (dir_numStmt: int)

text \<open>
  The identifiers \<open>GoDir.write\<close> gives the nodes of the tree it walks: its own \<open>id\<close>
  (here \<open>nodeID\<close>),
  \<open>id + "-" + filepath.Base(subDir.dirname)\<close> for each subdirectory (and below it, by
  the recursive call), and \<open>id + "-" + filepath.Base(file.filename)\<close> for each file.
  Each is the \<open>id\<close> attribute of the node's view and the target of the links to it.
\<close>

fun GoDir_write_ids :: "string \<Rightarrow> GoDir_reporter \<Rightarrow> string list" where
  "GoDir_write_ids nodeID (GoDir_reporter dn sds fs c n) =
     nodeID #
     concat (map (\<lambda>subDir. GoDir_write_ids (nodeID @ ''-'' @ Base (dirname subDir)) subDir) sds) @
     map (\<lambda>file. nodeID @ ''-'' @ Base (filename file)) fs"

text \<open>\<open>GoDirs.Report\<close> starts the walk with \<open>dirs.root().write(&buf, "", "root", "root")\<close>.\<close>

definition Report_ids :: "GoDir_reporter \<Rightarrow> string list" where
  "Report_ids rootDir = GoDir_write_ids ''root'' rootDir"

text \<open>
  \<open>ParseCutlines\<close>. \<open>ParseFloat\<close> is \<open>strconv.ParseFloat(_, 64)\<close>: an error or a
  value. Indexing an empty slice would panic.
\<close>

datatype 'e failure = Failed 'e | IndexOutOfRange

definition ParseCutlines ::
  "(string \<Rightarrow> 'e + float64) \<Rightarrow> string \<Rightarrow> 'e failure + Cutlines" where
  "ParseCutlines ParseFloat cutlines =
     (let frags = Split cutlines (CHR '','') in
      if length frags = 0 then Inl IndexOutOfRange
      else
        case ParseFloat (frags ! 0) of
          Inl err \<Rightarrow> Inl (Failed err)
        | Inr safe \<Rightarrow>
            (case ParseFloat (frags ! (length frags - 1)) of
               Inl err \<Rightarrow> Inl (Failed err)
             | Inr warning \<Rightarrow> Inr \<lparr>Safe = safe, Warning = warning\<rparr>))"

section \<open>The notions of the specification\<close>

subsection \<open>Blocks and lines\<close>

text \<open>
  A block of the specification's data model has \<open>startLine \<ge> 1\<close> and
  \<open>endLine \<ge> startLine\<close>; it contains the lines of its range. A list of blocks is
  sorted and non-overlapping when, for any two of them in list order, the earlier one
  does not start after the later one and their ranges share no line.
\<close>

definition valid_block :: "ProfileBlock \<Rightarrow> bool" where
  "valid_block b = (1 \<le> StartLine b \<and> StartLine b \<le> EndLine b)"

definition contains_line :: "ProfileBlock \<Rightarrow> int \<Rightarrow> bool" where
  "contains_line b n = (StartLine b \<le> n \<and> n \<le> EndLine b)"

definition overlap :: "ProfileBlock \<Rightarrow> ProfileBlock \<Rightarrow> bool" where
  "overlap a b = (StartLine a \<le> EndLine b \<and> StartLine b \<le> EndLine a)"

definition sorted_nonoverlapping :: "ProfileBlock list \<Rightarrow> bool" where
  "sorted_nonoverlapping bs =
     sorted_wrt (\<lambda>a b. StartLine a \<le> StartLine b \<and> \<not> overlap a b) bs"

text \<open>
  What the cursor of the merge walk has seen when it reaches line \<open>n\<close>: the blocks
  before the cursor end before line \<open>n\<close>, and the block at the cursor does not end
  before line \<open>n - 1\<close>.
\<close>

definition cursor_inv :: "ProfileBlock list \<Rightarrow> nat \<Rightarrow> int \<Rightarrow> bool" where
  "cursor_inv bs idx n =
     (idx \<le> length bs \<and> (\<forall>j<idx. EndLine (bs ! j) < n) \<and>
      (idx < length bs \<longrightarrow> n - 1 \<le> EndLine (bs ! idx)))"

subsection \<open>The display root\<close>

text \<open>
  A directory with exactly one child, that child being a directory. The collapsing rule
  descends from a directory into its only child as long as this holds, and stops at the
  first directory where it does not.
\<close>

definition single_child_dir :: "GoDir \<Rightarrow> bool" where
  "single_child_dir d =
     (length (SubDirs d) + length (Files d) = 1 \<and> length (SubDirs d) = 1)"

inductive collapses_to :: "GoDir \<Rightarrow> GoDir \<Rightarrow> bool" where
  stop: "\<not> single_child_dir d \<Longrightarrow> collapses_to d d"
| step: "single_child_dir d \<Longrightarrow> collapses_to (hd (SubDirs d)) d' \<Longrightarrow> collapses_to d d'"

code_pred collapses_to .

subsection \<open>The nodes of a tree, in pre-order\<close>

text \<open>
  The nodes reachable from a directory, parent first: the directory, then each
  subdirectory with all that is below it, then the directory's files. A view is the view
  of a node when it carries the node's identifier, kind and counts.
\<close>

datatype Node = DirNode GoDir | FileNode GoFile

fun preorder :: "GoDir \<Rightarrow> Node list" where
  "preorder (GoDir item dirs fls) =
     DirNode (GoDir item dirs fls) # concat (map preorder dirs) @ map FileNode fls"

fun all_files :: "GoDir \<Rightarrow> GoFile list" where
  "all_files (GoDir item dirs fls) = concat (map all_files dirs) @ fls"

fun count_nodes :: "GoDir \<Rightarrow> nat" where
  "count_nodes (GoDir item dirs fls) = 1 + sum_list (map count_nodes dirs) + length fls"

fun node_key :: "Node \<Rightarrow> string \<times> bool \<times> int \<times> int" where
  "node_key (DirNode d) =
     (ID (DirItem d), True, StmtCoveredCount (DirItem d), StmtCount (DirItem d))"
| "node_key (FileNode f) =
     (ID (FileItem f), False, StmtCoveredCount (FileItem f), StmtCount (FileItem f))"

definition view_key :: "TemplateViewData \<Rightarrow> string \<times> bool \<times> int \<times> int" where
  "view_key v = (ViewID v, IsDir v, NumStmtCovered v, NumStmt v)"

definition is_view_of :: "TemplateViewData \<Rightarrow> Node \<Rightarrow> bool" where
  "is_view_of v n = (view_key v = node_key n)"

definition readable :: "(string \<Rightarrow> string option) \<Rightarrow> GoFile list \<Rightarrow> bool" where
  "readable ReadFile fs = list_all (\<lambda>file. ReadFile (ABSPath file) \<noteq> None) fs"

subsection \<open>Percentages, classes and cutlines\<close>

text \<open>
  Modelled from the spec: \<open>GoListItem.Percent\<close>, which is declared outside the files at
  hand. The specification gives
  \<open>percentage(node) = statementCount == 0 ? 0 : 100 * statementsCovered / statementCount\<close>.
  It is used for concrete inputs only; the theorems about the classifier hold for every
  \<open>Percent\<close>.
\<close>

definition Percent_spec :: "GoListItem \<Rightarrow> float64" where
  "Percent_spec item =
     Finite (if StmtCount item = 0 then 0
             else 100 * real_of_int (StmtCoveredCount item) / real_of_int (StmtCount item))"

text \<open>The rank of a class: danger below warning below safe; 0 for no class.\<close>

definition class_rank :: "string \<Rightarrow> nat" where
  "class_rank c =
     (if c = ''danger'' then 1 else if c = ''warning'' then 2 else if c = ''safe'' then 3 else 0)"

text \<open>The first and the last of the fragments between the commas of a cutlines argument.\<close>

definition first_fragment :: "string \<Rightarrow> string" where
  "first_fragment cutlines = hd (Split cutlines (CHR '',''))"

definition last_fragment :: "string \<Rightarrow> string" where
  "last_fragment cutlines = last (Split cutlines (CHR '',''))"

subsection \<open>Concrete inputs\<close>

text \<open>The blocks of the specification's merge-walk example.\<close>

definition blocks_ex :: "ProfileBlock list" where
  "blocks_ex = [\<lparr>StartLine = 2, EndLine = 3, Count = 0\<rparr>, \<lparr>StartLine = 4, EndLine = 4, Count = 7\<rparr>]"

text \<open>
  The tree of the specification's collapsing example: the root has one child directory
  \<open>pkg\<close> and no files, and \<open>pkg\<close> has two files.
\<close>

definition item0 :: "string \<Rightarrow> GoListItem" where
  "item0 name = \<lparr>ID = name, Title = name, RelPkgPath = name, StmtCoveredCount = 0, StmtCount = 0\<rparr>"

definition file0 :: "string \<Rightarrow> GoFile" where
  "file0 name = \<lparr>FileItem = item0 name, ABSPath = name, Profile = []\<rparr>"

definition pkg_ex :: GoDir where
  "pkg_ex = GoDir (item0 ''pkg'') [] [file0 ''pkg/a.go'', file0 ''pkg/b.go'']"

definition root_ex :: GoDir where
  "root_ex = GoDir (item0 ''root'') [pkg_ex] []"

text \<open>
  An item with 1 of 32 statements covered (3.125 percent), one with 2 of 32 (6.25
  percent), and the cutlines that the repository's test of \<open>ParseCutlines\<close> reads from
  \<open>"3,5"\<close>: safe 3, warning 5.
\<close>

definition item_1_of_32 :: GoListItem where
  "item_1_of_32 = \<lparr>ID = ''root-a.go'', Title = ''a.go'', RelPkgPath = ''a.go'',
     StmtCoveredCount = 1, StmtCount = 32\<rparr>"

definition item_2_of_32 :: GoListItem where
  "item_2_of_32 = \<lparr>ID = ''root-b.go'', Title = ''b.go'', RelPkgPath = ''b.go'',
     StmtCoveredCount = 2, StmtCount = 32\<rparr>"

definition cutlines_3_5 :: Cutlines where
  "cutlines_3_5 = \<lparr>Safe = Finite 3, Warning = Finite 5\<rparr>"

text \<open>
  A tree of package \<open>reporter\<close>: the module \<open>example.com/m\<close> with the packages
  \<open>a\<close>, which holds the file \<open>b-c.go\<close>, and \<open>a-b\<close>, which holds the file \<open>c.go\<close>.
\<close>

definition colliding_tree :: GoDir_reporter where
  "colliding_tree =
     GoDir_reporter ''example.com/m''
       [GoDir_reporter ''example.com/m/a'' []
          [\<lparr>filename = ''example.com/m/a/b-c.go'', file_numStmtCovered = 0, file_numStmt = 0\<rparr>]
          0 0,
        GoDir_reporter ''example.com/m/a-b'' []
          [\<lparr>filename = ''example.com/m/a-b/c.go'', file_numStmtCovered = 0, file_numStmt = 0\<rparr>]
          0 0]
       [] 0 0"

text \<open>A stand-in for \<open>strconv.ParseFloat\<close> that reads three numerals and rejects the rest.\<close>

definition toy_ParseFloat :: "string \<Rightarrow> string + float64" where
  "toy_ParseFloat s =
     (if s = ''3'' then Inr (Finite 3) else if s = ''5'' then Inr (Finite 5)
      else if s = ''7'' then Inr (Finite 7) else Inl ''invalid syntax'')"

section \<open>Evaluating the library functions\<close>

text \<open>\<open>Split\<close> by cases on the string, for evaluation and for induction.\<close>

lemma Split_Nil: "Split [] sep = [[]]"
  by (subst Split.simps) simp

lemma Split_Cons:
  "Split (c # cs) sep =
     (if c = sep then [] # Split cs sep
      else (c # hd (Split cs sep)) # tl (Split cs sep))"
proof (cases "c = sep")
  case True
  then show ?thesis by (subst Split.simps) simp
next
  case False
  then have d: "dropWhile (\<lambda>x. x \<noteq> sep) (c # cs) = dropWhile (\<lambda>x. x \<noteq> sep) cs"
    and t: "takeWhile (\<lambda>x. x \<noteq> sep) (c # cs) = c # takeWhile (\<lambda>x. x \<noteq> sep) cs"
    by simp_all
  show ?thesis
  proof (cases "dropWhile (\<lambda>x. x \<noteq> sep) cs")
    case Nil
    have "Split cs sep = [cs]"
      by (subst Split.simps) (simp only: Nil list.case)
    moreover have "Split (c # cs) sep = [c # cs]"
      by (subst Split.simps) (simp only: d Nil list.case)
    ultimately show ?thesis using False by simp
  next
    case (Cons y rest)
    have "Split cs sep = takeWhile (\<lambda>x. x \<noteq> sep) cs # Split rest sep"
      by (subst Split.simps) (simp only: Cons list.case)
    moreover have "Split (c # cs) sep = (c # takeWhile (\<lambda>x. x \<noteq> sep) cs) # Split rest sep"
      by (subst Split.simps) (simp only: d t Cons list.case)
    ultimately show ?thesis using False by simp
  qed
qed

lemma Split_nonempty: "Split s sep \<noteq> []"
  by (subst Split.simps) (simp split: list.splits)

lemma Split_no_sep: "sep \<notin> set s \<Longrightarrow> Split s sep = [s]"
proof -
  assume "sep \<notin> set s"
  then have "dropWhile (\<lambda>c. c \<noteq> sep) s = []" by (auto simp: dropWhile_eq_Nil_conv)
  then show ?thesis by (subst Split.simps) (simp only: list.case)
qed

lemma Split_five: "Split ''a\<newline>b\<newline>c\<newline>d\<newline>e'' (CHR 0x0A) = [''a'', ''b'', ''c'', ''d'', ''e'']"
  by (simp add: Split_Nil Split_Cons)

lemma length_five:
  "length xs = 5 \<Longrightarrow> \<exists>a b c d e. xs = [a, b, c, d, e]"
  by (simp add: eval_nat_numeral length_Suc_conv) blast

section \<open>The line annotator\<close>

text \<open>
  \<open>AddFile_line\<close> reads \<open>Profile ! idxProfile'\<close> only where the index is in range:
  the count pointer is set only after a block at the new cursor has been read.
\<close>

lemma AddFile_line_in_range:
  "AddFile_line bs idx n = (idx', Some c) \<Longrightarrow> idx' < length bs"
  by (auto simp: AddFile_line_def Let_def split: if_splits)

lemma blocks_apart:
  assumes "list_all valid_block bs" "sorted_nonoverlapping bs" "i < j" "j < length bs"
  shows "EndLine (bs ! i) < StartLine (bs ! j)"
proof -
  have "StartLine (bs ! i) \<le> StartLine (bs ! j) \<and> \<not> overlap (bs ! i) (bs ! j)"
    using assms(2-4) unfolding sorted_nonoverlapping_def by (simp add: sorted_wrt_iff_nth_less)
  moreover have "valid_block (bs ! j)"
    using assms(1,4) by (simp add: list_all_length)
  ultimately show ?thesis
    by (auto simp: overlap_def valid_block_def)
qed

lemma find_at:
  assumes "k < length xs" "P (xs ! k)" "\<forall>j<k. \<not> P (xs ! j)"
  shows "find P xs = Some (xs ! k)"
  using assms by (auto simp: find_Some_iff)

lemma find_none_split:
  assumes "\<forall>j<length xs. \<not> P (xs ! j)"
  shows "find P xs = None"
  using assms by (auto simp: find_None_iff in_set_conv_nth)

lemma AddFile_line_step:
  assumes v: "list_all valid_block bs" and s: "sorted_nonoverlapping bs"
    and inv: "cursor_inv bs idx n"
    and step: "AddFile_line bs idx n = (idx', c)"
  shows "cursor_inv bs idx' (n + 1) \<and>
         c = map_option Count (find (\<lambda>b. contains_line b n) bs)"
proof -
  let ?P = "\<lambda>b. contains_line b n"
  have apart: "EndLine (bs ! i) < StartLine (bs ! j)" if "i < j" "j < length bs" for i j
    using blocks_apart [OF v s that] .
  have valid: "StartLine (bs ! j) \<le> EndLine (bs ! j)" if "j < length bs" for j
    using v that by (simp add: list_all_length valid_block_def)
  from inv have le: "idx \<le> length bs"
    and before: "\<And>j. j < idx \<Longrightarrow> EndLine (bs ! j) < n"
    and cur: "idx < length bs \<Longrightarrow> n - 1 \<le> EndLine (bs ! idx)"
    by (auto simp: cursor_inv_def)
  have before_not: "\<not> ?P (bs ! j)" if "j < idx" for j
    using before [OF that] by (simp add: contains_line_def)
  have before1: "EndLine (bs ! j) < n + 1" if "j < idx" for j
    using before [OF that] by simp
  consider (past) "idx = length bs"
    | (stay) "idx < length bs" "n \<le> EndLine (bs ! idx)"
    | (adv_in) "idx < length bs" "EndLine (bs ! idx) < n" "idx + 1 < length bs"
    | (adv_out) "idx < length bs" "EndLine (bs ! idx) < n" "idx + 1 = length bs"
    using le by force
  then show ?thesis
  proof cases
    case past
    with step have r: "idx' = idx" "c = None" by (auto simp: AddFile_line_def Let_def split: if_splits)
    have "find ?P bs = None"
      using before_not past by (intro find_none_split) simp
    with r past before1 show ?thesis by (simp add: cursor_inv_def)
  next
    case stay
    with step have r: "idx' = idx"
      "c = (if StartLine (bs ! idx) \<le> n then Some (Count (bs ! idx)) else None)"
      by (auto simp: AddFile_line_def Let_def split: if_splits)
    have i: "cursor_inv bs idx' (n + 1)"
      using r stay before1 by (simp add: cursor_inv_def)
    have "find ?P bs = (if StartLine (bs ! idx) \<le> n then Some (bs ! idx) else None)"
    proof (cases "StartLine (bs ! idx) \<le> n")
      case True
      then have "?P (bs ! idx)" using stay by (simp add: contains_line_def)
      then show ?thesis using True stay before_not by (simp add: find_at)
    next
      case False
      have "\<not> ?P (bs ! j)" if "j < length bs" for j
      proof (cases "j < idx")
        case True then show ?thesis by (rule before_not)
      next
        case nlt: False
        show ?thesis
        proof (cases "j = idx")
          case True then show ?thesis using False by (simp add: contains_line_def)
        next
          case ne: False
          then have "idx < j" using nlt by simp
          from apart [OF this that] valid [OF stay(1)] False
          show ?thesis by (simp add: contains_line_def)
        qed
      qed
      then show ?thesis using False by (simp add: find_none_split)
    qed
    with r i show ?thesis by simp
  next
    case adv_in
    with step have r: "idx' = idx + 1"
      "c = (if n \<le> EndLine (bs ! (idx + 1)) \<and> StartLine (bs ! (idx + 1)) \<le> n
            then Some (Count (bs ! (idx + 1))) else None)"
      by (auto simp: AddFile_line_def Let_def split: if_splits)
    have e: "EndLine (bs ! idx) = n - 1" using cur adv_in by simp
    have st: "n \<le> StartLine (bs ! (idx + 1))"
      using apart [of idx "idx + 1"] adv_in e by simp
    have en: "n \<le> EndLine (bs ! (idx + 1))"
      using st valid [OF adv_in(3)] by simp
    have b': "EndLine (bs ! j) < n + 1" if "j < idx + 1" for j
    proof (cases "j = idx")
      case True then show ?thesis using adv_in by simp
    next
      case False then have "j < idx" using that by simp
      from before [OF this] show ?thesis by simp
    qed
    have i: "cursor_inv bs idx' (n + 1)"
      using r adv_in en b' by (simp add: cursor_inv_def)
    have bn: "\<not> ?P (bs ! j)" if "j < idx + 1" for j
    proof (cases "j = idx")
      case True then show ?thesis using adv_in by (simp add: contains_line_def)
    next
      case False then have "j < idx" using that by simp
      then show ?thesis by (rule before_not)
    qed
    have "find ?P bs = (if StartLine (bs ! (idx + 1)) \<le> n then Some (bs ! (idx + 1)) else None)"
    proof (cases "StartLine (bs ! (idx + 1)) \<le> n")
      case True
      then have "?P (bs ! (idx + 1))" using en by (simp add: contains_line_def)
      then show ?thesis using True adv_in(3) bn by (simp add: find_at)
    next
      case False
      have "\<not> ?P (bs ! j)" if "j < length bs" for j
      proof (cases "j < idx + 1")
        case True then show ?thesis by (rule bn)
      next
        case nlt: False
        show ?thesis
        proof (cases "j = idx + 1")
          case True then show ?thesis using False by (simp add: contains_line_def)
        next
          case ne: False
          then have "idx + 1 < j" using nlt by simp
          from apart [OF this that] valid [OF adv_in(3)] False
          show ?thesis by (simp add: contains_line_def)
        qed
      qed
      then show ?thesis using False by (simp add: find_none_split)
    qed
    with r i en show ?thesis by simp
  next
    case adv_out
    with step have r: "idx' = idx + 1" "c = None" by (auto simp: AddFile_line_def Let_def split: if_splits)
    have b': "EndLine (bs ! j) < n" if "j < length bs" for j
    proof (cases "j = idx")
      case True then show ?thesis using adv_out by simp
    next
      case False then have "j < idx" using that adv_out by simp
      then show ?thesis by (rule before)
    qed
    then have "\<not> ?P (bs ! j)" if "j < length bs" for j
      using that by (force simp: contains_line_def)
    then have "find ?P bs = None"
      by (simp add: find_none_split)
    moreover have "EndLine (bs ! j) < n + 1" if "j < length bs" for j
      using b' [OF that] by simp
    then have "cursor_inv bs idx' (n + 1)"
      using r adv_out by (simp add: cursor_inv_def)
    ultimately show ?thesis using r by simp
  qed
qed

lemma AddFile_loop_counts:
  assumes "list_all valid_block bs" "sorted_nonoverlapping bs" "cursor_inv bs idx n"
  shows "AddFile_loop bs idx n lines =
         map (\<lambda>k. map_option Count (find (\<lambda>b. contains_line b k) bs))
           (map (\<lambda>i. n + int i) [0..<length lines])"
  using assms(3)
proof (induction lines arbitrary: idx n)
  case Nil
  then show ?case by simp
next
  case (Cons line rest)
  obtain idx' c where st: "AddFile_line bs idx n = (idx', c)" by force
  from AddFile_line_step [OF assms(1,2) Cons.prems st]
  have i: "cursor_inv bs idx' (n + 1)"
    and c: "c = map_option Count (find (\<lambda>b. contains_line b n) bs)" by simp_all
  have "map (\<lambda>i. n + int i) [0..<length (line # rest)] =
        n # map (\<lambda>i. (n + 1) + int i) [0..<length rest]"
    by (simp add: upt_rec [of 0] map_Suc_upt [symmetric] del: upt_Suc)
  then show ?case using st c Cons.IH [OF i] by simp
qed

lemma cursor_inv_start:
  assumes "list_all valid_block bs"
  shows "cursor_inv bs 0 1"
  using assms by (cases bs) (auto simp: cursor_inv_def valid_block_def)

lemma containing_block_unique:
  assumes v: "list_all valid_block bs" and s: "sorted_nonoverlapping bs"
    and "b \<in> set bs" "contains_line b n" "b' \<in> set bs" "contains_line b' n"
  shows "b = b'"
proof -
  from assms(3,5) obtain i j where i: "i < length bs" "bs ! i = b"
    and j: "j < length bs" "bs ! j = b'"
    by (auto simp: in_set_conv_nth)
  have "\<not> i < j"
    using blocks_apart [OF v s _ j(1), of i] i j assms(4,6) by (auto simp: contains_line_def)
  moreover have "\<not> j < i"
    using blocks_apart [OF v s _ i(1), of j] i j assms(4,6) by (auto simp: contains_line_def)
  ultimately have "i = j" by simp
  with i j show ?thesis by simp
qed

text \<open>
  C1. For every source text, split into lines numbered from 1, and every list of blocks
  of the data model that is sorted and non-overlapping, the merge walk of \<open>AddFile\<close>
  chooses one count per line, and the annotation of a line is \<open>NotInstrumented\<close> when
  no block contains the line, \<open>Uncovered\<close> when a block with count 0 contains it, and
  \<open>Covered count\<close> when a block with a count above 0 contains it. For a text of five
  lines and the blocks \<open>[{2,3,0},{4,4,7}]\<close> the annotations are NotInstrumented,
  Uncovered, Uncovered, Covered 7, NotInstrumented.
\<close>

theorem AddFile_annotates_lines:
  assumes v: "list_all valid_block bs" and s: "sorted_nonoverlapping bs"
  shows "length (AddFile_counts bs src) = length (Split src (CHR 0x0A)) \<and>
    (\<forall>i < length (Split src (CHR 0x0A)).
       ((\<forall>b \<in> set bs. \<not> contains_line b (int i + 1)) \<longrightarrow>
          annotation (AddFile_counts bs src ! i) = NotInstrumented) \<and>
       (\<forall>b \<in> set bs. contains_line b (int i + 1) \<longrightarrow>
          (Count b = 0 \<longrightarrow> annotation (AddFile_counts bs src ! i) = Uncovered) \<and>
          (0 < Count b \<longrightarrow> annotation (AddFile_counts bs src ! i) = Covered (Count b)))) \<and>
    (length (Split src (CHR 0x0A)) = 5 \<longrightarrow>
       map annotation (AddFile_counts blocks_ex src) =
         [NotInstrumented, Uncovered, Uncovered, Covered 7, NotInstrumented])"
proof -
  let ?lines = "Split src (CHR 0x0A)"
  let ?f = "\<lambda>k. map_option Count (find (\<lambda>b. contains_line b k) bs)"
  have counts: "AddFile_counts bs src = map ?f (map (\<lambda>i. 1 + int i) [0..<length ?lines])"
    unfolding AddFile_counts_def
    by (rule AddFile_loop_counts [OF v s cursor_inv_start [OF v]])
  have len: "length (AddFile_counts bs src) = length ?lines"
    by (simp add: counts)
  have at: "AddFile_counts bs src ! i = ?f (int i + 1)" if "i < length ?lines" for i
    using that by (simp add: counts add.commute)
  have lines: "((\<forall>b \<in> set bs. \<not> contains_line b (int i + 1)) \<longrightarrow>
          annotation (AddFile_counts bs src ! i) = NotInstrumented) \<and>
       (\<forall>b \<in> set bs. contains_line b (int i + 1) \<longrightarrow>
          (Count b = 0 \<longrightarrow> annotation (AddFile_counts bs src ! i) = Uncovered) \<and>
          (0 < Count b \<longrightarrow> annotation (AddFile_counts bs src ! i) = Covered (Count b)))"
    if i: "i < length ?lines" for i
  proof (cases "find (\<lambda>b. contains_line b (int i + 1)) bs")
    case None
    then have "\<forall>b \<in> set bs. \<not> contains_line b (int i + 1)"
      by (simp add: find_None_iff)
    then show ?thesis using None at [OF i] by simp
  next
    case (Some b')
    then have b': "b' \<in> set bs" "contains_line b' (int i + 1)"
      by (auto simp: find_Some_iff)
    have u: "b = b'" if "b \<in> set bs" "contains_line b (int i + 1)" for b
      using containing_block_unique [OF v s that b'] .
    have a: "annotation (AddFile_counts bs src ! i) =
               (if Count b' = 0 then Uncovered else Covered (Count b'))"
      using Some at [OF i] by simp
    show ?thesis
    proof (intro conjI ballI impI)
      assume "\<forall>b \<in> set bs. \<not> contains_line b (int i + 1)"
      with b' show "annotation (AddFile_counts bs src ! i) = NotInstrumented" by blast
    next
      fix b assume "b \<in> set bs" "contains_line b (int i + 1)" "Count b = 0"
      with u [of b] a show "annotation (AddFile_counts bs src ! i) = Uncovered" by simp
    next
      fix b assume "b \<in> set bs" "contains_line b (int i + 1)" "0 < Count b"
      with u [of b] a show "annotation (AddFile_counts bs src ! i) = Covered (Count b)" by simp
    qed
  qed
  have ex: "map annotation (AddFile_counts blocks_ex src) =
         [NotInstrumented, Uncovered, Uncovered, Covered 7, NotInstrumented]"
    if "length ?lines = 5"
  proof -
    from that have "\<exists>l1 l2 l3 l4 l5. ?lines = [l1, l2, l3, l4, l5]"
      by (rule length_five)
    then obtain l1 l2 l3 l4 l5 where "?lines = [l1, l2, l3, l4, l5]" by blast
    then have "AddFile_counts blocks_ex src = AddFile_loop blocks_ex 0 1 [l1, l2, l3, l4, l5]"
      by (simp only: AddFile_counts_def)
    also have "map annotation \<dots> = [NotInstrumented, Uncovered, Uncovered, Covered 7, NotInstrumented]"
      by (simp add: blocks_ex_def AddFile_line_def)
    finally show ?thesis .
  qed
  have all_lines: "\<forall>i < length ?lines.
       ((\<forall>b \<in> set bs. \<not> contains_line b (int i + 1)) \<longrightarrow>
          annotation (AddFile_counts bs src ! i) = NotInstrumented) \<and>
       (\<forall>b \<in> set bs. contains_line b (int i + 1) \<longrightarrow>
          (Count b = 0 \<longrightarrow> annotation (AddFile_counts bs src ! i) = Uncovered) \<and>
          (0 < Count b \<longrightarrow> annotation (AddFile_counts bs src ! i) = Covered (Count b)))"
    by (intro allI impI) (rule lines)
  have ex': "length ?lines = 5 \<longrightarrow>
       map annotation (AddFile_counts blocks_ex src) =
         [NotInstrumented, Uncovered, Uncovered, Covered 7, NotInstrumented]"
    by (intro impI) (rule ex)
  show ?thesis by (intro conjI) (rule len, rule all_lines, rule ex')
qed

theorem AddFile_annotates_lines_witness:
  "list_all valid_block blocks_ex \<and> sorted_nonoverlapping blocks_ex \<and>
   length (Split ''a\<newline>b\<newline>c\<newline>d\<newline>e'' (CHR 0x0A)) = 5 \<and>
   contains_line (blocks_ex ! 1) 4 \<and> 0 < Count (blocks_ex ! 1) \<and>
   annotation (AddFile_counts blocks_ex ''a\<newline>b\<newline>c\<newline>d\<newline>e'' ! 3) = Covered 7 \<and>
   map annotation (AddFile_counts blocks_ex ''a\<newline>b\<newline>c\<newline>d\<newline>e'') =
     [NotInstrumented, Uncovered, Uncovered, Covered 7, NotInstrumented]"
proof -
  let ?src = "''a\<newline>b\<newline>c\<newline>d\<newline>e''"
  have v: "list_all valid_block blocks_ex"
    by (simp add: blocks_ex_def valid_block_def)
  have s: "sorted_nonoverlapping blocks_ex"
    by (simp add: blocks_ex_def sorted_nonoverlapping_def overlap_def)
  have l: "length (Split ?src (CHR 0x0A)) = 5"
    by (simp add: Split_Nil Split_Cons)
  have c: "contains_line (blocks_ex ! 1) 4" "0 < Count (blocks_ex ! 1)" "blocks_ex ! 1 \<in> set blocks_ex"
    by (simp_all add: blocks_ex_def contains_line_def)
  note T = AddFile_annotates_lines [OF v s, of ?src]
  have m: "map annotation (AddFile_counts blocks_ex ?src) =
     [NotInstrumented, Uncovered, Uncovered, Covered 7, NotInstrumented]"
    by (rule T [THEN conjunct2, THEN conjunct2, rule_format]) (rule l)
  have i3: "(3::nat) < length (Split ?src (CHR 0x0A))" by (simp add: l)
  have n4: "int 3 + 1 = 4" by simp
  have "annotation (AddFile_counts blocks_ex ?src ! 3) = Covered (Count (blocks_ex ! 1))"
    by (rule T [THEN conjunct2, THEN conjunct1, rule_format, OF i3, THEN conjunct2,
          rule_format, OF c(3), THEN conjunct2, rule_format])
       (simp only: n4 c)+
  moreover have "Count (blocks_ex ! 1) = 7" by (simp add: blocks_ex_def)
  ultimately have a: "annotation (AddFile_counts blocks_ex ?src ! 3) = Covered 7" by simp
  from v s l c(1,2) a m show ?thesis by (intro conjI)
qed

text \<open>
  C8. The claim is that the loop of \<open>GoFile.write\<close> chooses the same count for every
  line as the loop of \<open>AddFile\<close>. \<open>GoFile.write\<close> does not compare the line with the
  start of the block at the cursor: on the five lines and the blocks of the
  specification's example it gives line 1, which lies before the first block, the count of
  that block, where \<open>AddFile\<close> gives it no count.
\<close>

theorem annotation_loops_differ:
  "map annotation (GoFile_write_counts blocks_ex ''a\<newline>b\<newline>c\<newline>d\<newline>e'') =
     [Uncovered, Uncovered, Uncovered, Covered 7, NotInstrumented] \<and>
   map annotation (AddFile_counts blocks_ex ''a\<newline>b\<newline>c\<newline>d\<newline>e'') =
     [NotInstrumented, Uncovered, Uncovered, Covered 7, NotInstrumented]"
  by (simp add: GoFile_write_counts_def AddFile_counts_def Split_five blocks_ex_def
      GoFile_write_line_def AddFile_line_def)

text \<open>
  The two loops move the cursor in the same way, and wherever \<open>AddFile\<close> chooses a
  count, \<open>GoFile.write\<close> chooses the same one: they differ on lines that no block
  contains.
\<close>

lemma GoFile_write_line_cursor:
  "fst (GoFile_write_line bs idx n) = fst (AddFile_line bs idx n)"
  by (simp add: GoFile_write_line_def AddFile_line_def Let_def)

lemma GoFile_write_line_count:
  "snd (AddFile_line bs idx n) = Some c \<Longrightarrow> snd (GoFile_write_line bs idx n) = Some c"
  by (auto simp: GoFile_write_line_def AddFile_line_def Let_def split: if_splits)

lemma GoFile_write_loop_counts:
  "list_all2 (\<lambda>new old. new \<noteq> None \<longrightarrow> old = new)
     (AddFile_loop bs idx n lines) (GoFile_write_loop bs idx n lines)"
proof (induction lines arbitrary: idx n)
  case Nil
  then show ?case by simp
next
  case (Cons l rest)
  obtain i c where a: "AddFile_line bs idx n = (i, c)" by force
  obtain i' c' where g: "GoFile_write_line bs idx n = (i', c')" by force
  from GoFile_write_line_cursor [of bs idx n] a g have i: "i' = i" by simp
  from GoFile_write_line_count [of bs idx n] a g have c: "c \<noteq> None \<longrightarrow> c' = c" by auto
  show ?case using a g i c Cons.IH [of i "n + 1"] by simp
qed

section \<open>Escaping\<close>

text \<open>
  C9. The claim is that the four replacements of \<open>GoFile.write\<close> and the loop of
  \<open>WriteHTMLEscapedCode\<close> produce the same text. \<open>GoFile.write\<close> replaces \<open>&\<close>
  after it has produced \<open>&gt;\<close> and \<open>&lt;\<close>, so it escapes their ampersands again:
  \<open>a > b\<close> becomes \<open>a &amp;gt; b\<close> there and \<open>a &gt; b\<close> in \<open>WriteHTMLEscapedCode\<close>.
\<close>

theorem escapings_differ:
  "GoFile_write_escape ''a > b'' = ''a &amp;gt; b'' \<and>
   WriteHTMLEscapedCode ''a > b'' = ''a &gt; b''"
  by (simp add: GoFile_write_escape_def escape_byte_def)

text \<open>
  \<open>WriteHTMLEscapedCode\<close> does not copy every other byte either: of a code point
  encoded in several bytes it writes the first byte only (here the two bytes of U+00E9).
\<close>

lemma WriteHTMLEscapedCode_multibyte:
  "WriteHTMLEscapedCode [CHR 0xC3, CHR 0xA9] = [CHR 0xC3]"
  by (simp add: escape_byte_def cont_byte_def)

section \<open>The classifier\<close>

lemma f64_le_not_less: "f64_le a b \<Longrightarrow> \<not> f64_less b a"
  by (cases a; cases b) auto

lemma f64_less_le_trans: "f64_le a b \<Longrightarrow> f64_less b c \<Longrightarrow> f64_less a c"
  by (cases a; cases b; cases c) auto

text \<open>
  C2, as amended. For every list item with \<open>StmtCount > 0\<close> and all cutlines,
  \<open>NewTemplateListItemData\<close> assigns danger when the percentage is below the warning
  cutline, warning when it is at least the warning cutline and below the safe cutline,
  and safe when it is at least the safe cutline and at least the warning cutline; an
  item with \<open>StmtCount = 0\<close> gets no class. The comparisons are those of float64.
\<close>

theorem classifier_policy:
  "(0 < StmtCount item \<longrightarrow>
      (f64_less (Percent item) (Warning cutlines) \<longrightarrow>
         ClassName (NewTemplateListItemData Percent item cutlines) = ''danger'') \<and>
      (f64_le (Warning cutlines) (Percent item) \<and> f64_less (Percent item) (Safe cutlines) \<longrightarrow>
         ClassName (NewTemplateListItemData Percent item cutlines) = ''warning'') \<and>
      (f64_le (Safe cutlines) (Percent item) \<and> f64_le (Warning cutlines) (Percent item) \<longrightarrow>
         ClassName (NewTemplateListItemData Percent item cutlines) = ''safe'')) \<and>
   (StmtCount item = 0 \<longrightarrow>
      ClassName (NewTemplateListItemData Percent item cutlines) = [])"
  by (auto simp: NewTemplateListItemData_def Let_def dest: f64_le_not_less)

text \<open>
  C2 as stated fails when the warning cutline is above the safe cutline: with safe 3 and
  warning 5, an item at 3.125 percent is at least at the safe cutline, and its class is
  danger, not safe.
\<close>

theorem classifier_policy_counterexample:
  "0 < StmtCount item_1_of_32 \<and>
   Percent_spec item_1_of_32 = Finite (25 / 8) \<and>
   f64_le (Safe cutlines_3_5) (Percent_spec item_1_of_32) \<and>
   ClassName (NewTemplateListItemData Percent_spec item_1_of_32 cutlines_3_5) = ''danger'' \<and>
   ClassName (NewTemplateListItemData Percent_spec item_1_of_32 cutlines_3_5) \<noteq> ''safe''"
  by (simp add: NewTemplateListItemData_def Percent_spec_def item_1_of_32_def cutlines_3_5_def)

theorem classifier_policy_witness:
  "0 < StmtCount item_1_of_32 \<and>
   f64_less (Percent_spec item_1_of_32) (Warning cutlines_3_5) \<and>
   ClassName (NewTemplateListItemData Percent_spec item_1_of_32 cutlines_3_5) = ''danger'' \<and>
   0 < StmtCount item_2_of_32 \<and>
   f64_le (Safe cutlines_3_5) (Percent_spec item_2_of_32) \<and>
   f64_le (Warning cutlines_3_5) (Percent_spec item_2_of_32) \<and>
   ClassName (NewTemplateListItemData Percent_spec item_2_of_32 cutlines_3_5) = ''safe''"
  using classifier_policy [of item_1_of_32 Percent_spec cutlines_3_5]
    classifier_policy [of item_2_of_32 Percent_spec cutlines_3_5]
  by (simp add: Percent_spec_def item_1_of_32_def item_2_of_32_def cutlines_3_5_def)

text \<open>
  C6. For all cutlines, whatever their order, and two items with \<open>StmtCount > 0\<close>, if
  the percentage of the first is at most that of the second, then the rank of the class
  of the first is at most the rank of the class of the second (danger 1, warning 2,
  safe 3); both items have a class.
\<close>

theorem classification_monotone:
  assumes "0 < StmtCount item1" "0 < StmtCount item2"
    and "f64_le (Percent item1) (Percent item2)"
  shows "1 \<le> class_rank (ClassName (NewTemplateListItemData Percent item1 cutlines)) \<and>
         class_rank (ClassName (NewTemplateListItemData Percent item1 cutlines))
           \<le> class_rank (ClassName (NewTemplateListItemData Percent item2 cutlines)) \<and>
         class_rank (ClassName (NewTemplateListItemData Percent item2 cutlines)) \<le> 3"
  using assms
  by (auto simp: NewTemplateListItemData_def Let_def class_rank_def dest: f64_less_le_trans)

theorem classification_monotone_witness:
  "0 < StmtCount item_1_of_32 \<and> 0 < StmtCount item_2_of_32 \<and>
   f64_le (Percent_spec item_1_of_32) (Percent_spec item_2_of_32) \<and>
   class_rank (ClassName (NewTemplateListItemData Percent_spec item_1_of_32 cutlines_3_5)) = 1 \<and>
   class_rank (ClassName (NewTemplateListItemData Percent_spec item_2_of_32 cutlines_3_5)) = 3"
  using classification_monotone [of item_1_of_32 item_2_of_32 Percent_spec cutlines_3_5]
  by (simp add: NewTemplateListItemData_def Percent_spec_def item_1_of_32_def item_2_of_32_def
      cutlines_3_5_def class_rank_def)

section \<open>Rounding to float64\<close>

lemma round_half_even_cases:
  "round_half_even y = \<lfloor>y\<rfloor> \<or> round_half_even y = \<lfloor>y\<rfloor> + 1"
  by (simp add: round_half_even_def Let_def)

lemma round_half_even_of_int [simp]: "round_half_even (of_int n) = n"
  by (simp add: round_half_even_def)

lemma round_half_even_mono:
  assumes "y \<le> z"
  shows "round_half_even y \<le> round_half_even z"
proof (cases "\<lfloor>y\<rfloor> = \<lfloor>z\<rfloor>")
  case True
  with assms have "y - of_int \<lfloor>y\<rfloor> \<le> z - of_int \<lfloor>z\<rfloor>" by simp
  with True show ?thesis by (auto simp: round_half_even_def Let_def)
next
  case False
  with assms have "\<lfloor>y\<rfloor> < \<lfloor>z\<rfloor>" using floor_mono [OF assms] by simp
  moreover have "round_half_even y \<le> \<lfloor>y\<rfloor> + 1"
    using round_half_even_cases [of y] by auto
  moreover have "\<lfloor>z\<rfloor> \<le> round_half_even z"
    using round_half_even_cases [of z] by auto
  ultimately show ?thesis by simp
qed

lemma round_half_even_error: "\<bar>of_int (round_half_even y) - y\<bar> \<le> 1 / 2"
proof -
  have "of_int \<lfloor>y\<rfloor> \<le> y" "y < of_int \<lfloor>y\<rfloor> + 1" by linarith+
  then show ?thesis
    by (auto simp: round_half_even_def Let_def abs_le_iff)
qed

lemma round_half_even_le: "y \<le> of_int n \<Longrightarrow> round_half_even y \<le> n"
  using round_half_even_mono [of y "of_int n"] by simp

lemma round_half_even_ge: "of_int n \<le> y \<Longrightarrow> n \<le> round_half_even y"
  using round_half_even_mono [of "of_int n" y] by simp

lemma float64_exp_eq:
  assumes "2 powr of_int k \<le> x" "x < 2 powr (of_int k + 1)" "- 1022 \<le> k"
  shows "float64_exp x = k - 52"
proof -
  have "0 < x" using assms(1) by (smt (verit) powr_gt_zero)
  then have "\<lfloor>log 2 \<bar>x\<bar>\<rfloor> = k"
    using assms(1,2) by (simp add: floor_log_eq_powr_iff)
  then show ?thesis using assms(3) by (simp add: float64_exp_def)
qed

lemma float64_exp_upper:
  assumes "0 < x"
  shows "x < 2 powr (of_int (float64_exp x) + 53)"
proof -
  let ?k = "\<lfloor>log 2 x\<rfloor>"
  have "x < 2 powr (of_int ?k + 1)"
    using assms floor_log_eq_powr_iff [of x 2 ?k] by simp
  also have "\<dots> \<le> 2 powr (of_int (max ?k (- 1022)) + 1)" by simp
  also have "of_int (max ?k (- 1022)) + (1::real) = of_int (float64_exp x) + 53"
    using assms by (simp add: float64_exp_def)
  finally show ?thesis .
qed

lemma float64_exp_lower:
  assumes "0 < x" "- 1022 \<le> \<lfloor>log 2 x\<rfloor>"
  shows "2 powr (of_int (float64_exp x) + 52) \<le> x"
proof -
  let ?k = "\<lfloor>log 2 x\<rfloor>"
  have "2 powr of_int ?k \<le> x"
    using assms floor_log_eq_powr_iff [of x 2 ?k] by simp
  moreover have "of_int (float64_exp x) + (52::real) = of_int ?k"
    using assms by (simp add: float64_exp_def)
  ultimately show ?thesis by simp
qed

lemma float64_exp_mono:
  assumes "0 < x" "x \<le> y"
  shows "float64_exp x \<le> float64_exp y"
proof -
  have "log 2 x \<le> log 2 y" using assms by simp
  then have "\<lfloor>log 2 x\<rfloor> \<le> \<lfloor>log 2 y\<rfloor>" by (rule floor_mono)
  then show ?thesis using assms by (simp add: float64_exp_def)
qed

lemma float64_round_nonneg:
  assumes "0 \<le> x"
  shows "0 \<le> float64_round x"
proof (cases "x = 0")
  case True then show ?thesis by (simp add: float64_round_def)
next
  case False
  let ?u = "(2::real) powr of_int (float64_exp x)"
  have "0 \<le> x / ?u" using assms by simp
  then have "0 \<le> round_half_even (x / ?u)"
    using round_half_even_ge [of 0 "x / ?u"] by simp
  then show ?thesis using False by (simp add: float64_round_def)
qed

lemma float64_round_upper:
  assumes "0 < x"
  shows "float64_round x \<le> 2 powr (of_int (float64_exp x) + 53)"
proof -
  let ?e = "float64_exp x"
  let ?u = "(2::real) powr of_int ?e"
  have "x / ?u \<le> 2 powr 53"
    using float64_exp_upper [OF assms] by (simp add: powr_add divide_le_eq mult.commute)
  also have "(2::real) powr 53 = of_int (2 ^ 53)" by simp
  finally have "round_half_even (x / ?u) \<le> 2 ^ 53" by (rule round_half_even_le)
  then have "(of_int (round_half_even (x / ?u)) :: real) \<le> of_int (2 ^ 53)"
    by (simp only: of_int_le_iff)
  then have "of_int (round_half_even (x / ?u)) * ?u \<le> 2 powr 53 * ?u"
    by (intro mult_right_mono) simp_all
  then show ?thesis using assms by (simp add: float64_round_def powr_add mult.commute)
qed

lemma float64_round_lower:
  assumes "0 < x" "- 1022 \<le> \<lfloor>log 2 x\<rfloor>"
  shows "2 powr (of_int (float64_exp x) + 52) \<le> float64_round x"
proof -
  let ?e = "float64_exp x"
  let ?u = "(2::real) powr of_int ?e"
  have "2 powr 52 \<le> x / ?u"
    using float64_exp_lower [OF assms] by (simp add: powr_add le_divide_eq mult.commute)
  moreover have "(2::real) powr 52 = of_int (2 ^ 52)" by simp
  ultimately have "of_int (2 ^ 52) \<le> x / ?u" by simp
  then have "2 ^ 52 \<le> round_half_even (x / ?u)" by (rule round_half_even_ge)
  then have "(of_int (2 ^ 52) :: real) \<le> of_int (round_half_even (x / ?u))"
    by (simp only: of_int_le_iff)
  then have "2 powr 52 * ?u \<le> of_int (round_half_even (x / ?u)) * ?u"
    by (intro mult_right_mono) simp_all
  then show ?thesis using assms by (simp add: float64_round_def powr_add mult.commute)
qed

lemma float64_round_mono:
  assumes "0 \<le> x" "x \<le> y"
  shows "float64_round x \<le> float64_round y"
proof (cases "x = 0")
  case True
  then show ?thesis using float64_round_nonneg [of y] assms by (simp add: float64_round_def)
next
  case False
  then have x: "0 < x" and y: "0 < y" using assms by simp_all
  have le: "float64_exp x \<le> float64_exp y" using x assms(2) by (rule float64_exp_mono)
  show ?thesis
  proof (cases "float64_exp x = float64_exp y")
    case True
    let ?u = "(2::real) powr of_int (float64_exp y)"
    have "x / ?u \<le> y / ?u" using assms(2) by (simp add: divide_right_mono)
    then have "round_half_even (x / ?u) \<le> round_half_even (y / ?u)"
      by (rule round_half_even_mono)
    then have "(of_int (round_half_even (x / ?u)) :: real) \<le> of_int (round_half_even (y / ?u))"
      by (simp only: of_int_le_iff)
    then have "of_int (round_half_even (x / ?u)) * ?u \<le> of_int (round_half_even (y / ?u)) * ?u"
      by (intro mult_right_mono) simp_all
    then show ?thesis using x y True by (simp add: float64_round_def)
  next
    case False
    with le have lt: "float64_exp x + 1 \<le> float64_exp y" by simp
    have "- 1074 \<le> float64_exp x" by (simp add: float64_exp_def)
    with lt have "- 1022 < max \<lfloor>log 2 \<bar>y\<bar>\<rfloor> (- 1022)"
      by (simp add: float64_exp_def)
    then have n: "- 1022 \<le> \<lfloor>log 2 y\<rfloor>" using y by (simp add: max_def split: if_splits)
    have "float64_round x \<le> 2 powr (of_int (float64_exp x) + 53)"
      using x by (rule float64_round_upper)
    also have "\<dots> \<le> 2 powr (of_int (float64_exp y) + 52)"
      using lt by simp
    also have "\<dots> \<le> float64_round y" using y n by (rule float64_round_lower)
    finally show ?thesis .
  qed
qed

lemma float64_round_exact:
  assumes "2 powr of_int k \<le> x" "x < 2 powr (of_int k + 1)" "- 1022 \<le> k"
    and "x / 2 powr of_int (k - 52) = of_int m"
  shows "float64_round x = x"
proof -
  have x: "0 < x" using assms(1) by (smt (verit) powr_gt_zero)
  have e: "float64_exp x = k - 52" using assms(1-3) by (rule float64_exp_eq)
  have "float64_round x = of_int m * 2 powr of_int (k - 52)"
    using x e assms(4) by (simp add: float64_round_def)
  also have "\<dots> = x" using assms(4) [symmetric] by simp
  finally show ?thesis .
qed

lemma float64_round_1: "float64_round 1 = 1"
  by (rule float64_round_exact [of 0 1 "2 ^ 52"]) (simp_all add: powr_minus divide_simps)

lemma float64_round_100: "float64_round 100 = 100"
  by (rule float64_round_exact [of 6 100 "100 * 2 ^ 46"]) (simp_all add: powr_minus divide_simps)

lemma float64_round_eval:
  assumes "2 powr of_int k \<le> x" "x < 2 powr (of_int k + 1)" "- 1022 \<le> k"
  shows "float64_round x =
           of_int (round_half_even (x / 2 powr of_int (k - 52))) * 2 powr of_int (k - 52)"
proof -
  have x: "0 < x" using assms(1) by (smt (verit) powr_gt_zero)
  have e: "float64_exp x = k - 52" using assms by (rule float64_exp_eq)
  show ?thesis using x e by (simp add: float64_round_def)
qed

lemma round_half_even_up:
  assumes "of_int f + 1 / 2 < y" "y < of_int f + 1"
  shows "round_half_even y = f + 1"
proof -
  have "\<lfloor>y\<rfloor> = f" using assms by (simp add: floor_eq_iff)
  then show ?thesis using assms by (simp add: round_half_even_def Let_def)
qed

lemma round_half_even_down:
  assumes "of_int f \<le> y" "y < of_int f + 1 / 2"
  shows "round_half_even y = f"
proof -
  have "\<lfloor>y\<rfloor> = f" using assms by (simp add: floor_eq_iff)
  then show ?thesis using assms by (simp add: round_half_even_def Let_def)
qed

lemma normal_floor_log:
  assumes "2 powr (- 1022) \<le> x"
  shows "- 1022 \<le> \<lfloor>log 2 x\<rfloor>"
proof -
  have "0 < x" using assms by (smt (verit) powr_gt_zero)
  then have "- 1022 \<le> log 2 x" using assms by (simp add: le_log_iff)
  then show ?thesis by (simp add: le_floor_iff)
qed

lemma float64_round_error:
  assumes "2 powr (- 1022) \<le> x"
  shows "\<bar>float64_round x - x\<bar> \<le> x * 2 powr (- 53)"
proof -
  have x: "0 < x" using assms by (smt (verit) powr_gt_zero)
  let ?e = "float64_exp x"
  let ?u = "(2::real) powr of_int ?e"
  have u: "0 < ?u" by simp
  have "float64_round x - x = (of_int (round_half_even (x / ?u)) - x / ?u) * ?u"
    using x by (simp add: float64_round_def algebra_simps)
  then have "\<bar>float64_round x - x\<bar> = \<bar>of_int (round_half_even (x / ?u)) - x / ?u\<bar> * ?u"
    by (simp add: abs_mult)
  also have "\<dots> \<le> 1 / 2 * ?u"
    by (intro mult_right_mono round_half_even_error) simp
  also have "1 / 2 * ?u = 2 powr (of_int ?e + 52) * 2 powr (- 53)"
    by (simp add: powr_add [symmetric] powr_minus field_simps)
       (simp add: powr_add powr_minus field_simps)
  also have "\<dots> \<le> x * 2 powr (- 53)"
    by (intro mult_right_mono float64_exp_lower [OF x normal_floor_log [OF assms]]) simp
  finally show ?thesis .
qed

lemma float64_round_int:
  assumes "0 \<le> c" "c < 2 ^ 53"
  shows "float64_round (of_int c) = of_int c"
proof (cases "c = 0")
  case True then show ?thesis by (simp add: float64_round_def)
next
  case False
  with assms have c: "0 < (of_int c :: real)" by simp
  define k where "k = \<lfloor>log 2 (of_int c)\<rfloor>"
  have br: "(2::real) powr of_int k \<le> of_int c" "(of_int c :: real) < 2 powr (of_int k + 1)"
    using c floor_log_eq_powr_iff [of "of_int c" 2 k] by (simp_all add: k_def)
  have "(1::real) \<le> of_int c" using assms False by simp
  then have "0 \<le> log 2 (of_int c)" by simp
  then have k0: "0 \<le> k" by (simp add: k_def)
  have p53: "(2::real) powr of_int 53 = 2 ^ 53" by simp
  have "(of_int c :: real) < of_int (2 ^ 53)" using assms(2) by (simp only: of_int_less_iff)
  then have "(of_int c :: real) < 2 ^ 53" by simp
  with br(1) have "(2::real) powr of_int k < 2 powr of_int 53"
    unfolding p53 by linarith
  then have "(of_int k :: real) < of_int 53"
    by (subst (asm) powr_less_cancel_iff) simp_all
  then have k52: "k \<le> 52" by simp
  define j where "j = nat (52 - k)"
  have "(2::real) powr of_int (k - 52) = 1 / 2 ^ j"
  proof -
    have "(of_int (k - 52) :: real) = - real j" using k52 by (simp add: j_def)
    then have "(2::real) powr of_int (k - 52) = 2 powr (- real j)" by (simp only:)
    also have "\<dots> = inverse (2 powr real j)" by (rule powr_minus)
    also have "\<dots> = inverse (2 ^ j)" by (simp add: powr_realpow)
    finally show ?thesis by (simp add: divide_inverse)
  qed
  then have "of_int c / 2 powr of_int (k - 52) = (of_int (c * 2 ^ j) :: real)" by simp
  with br k0 show ?thesis by (intro float64_round_exact [of k _ "c * 2 ^ j"]) simp_all
qed

text \<open>\<open>7 / 100 * 100\<close> and \<open>7 / 10 * 100\<close> in float64 arithmetic.\<close>

lemma fl_7_100: "float64_round (7 / 100) = 5044031582654956 / 2 ^ 56"
proof -
  have "float64_round (7 / 100) =
          of_int (round_half_even ((7 / 100) / 2 powr of_int (- 4 - 52))) * 2 powr of_int (- 4 - 52)"
    by (rule float64_round_eval) (simp_all add: powr_minus divide_simps)
  moreover have "(7 / 100) / 2 powr of_int (- 4 - 52) = (7 * 2 ^ 56 / 100 :: real)"
    by (simp add: powr_minus divide_simps)
  moreover have "round_half_even (7 * 2 ^ 56 / 100) = 5044031582654956"
    by (rule round_half_even_up [of 5044031582654955, simplified]) simp_all
  ultimately show ?thesis by (simp add: powr_minus divide_simps)
qed

lemma fl_7_100_times: "float64_round (5044031582654956 / 2 ^ 56 * 100) = 7881299347898369 / 2 ^ 50"
proof -
  let ?x = "5044031582654956 / 2 ^ 56 * 100 :: real"
  have "float64_round ?x =
          of_int (round_half_even (?x / 2 powr of_int (2 - 52))) * 2 powr of_int (2 - 52)"
    by (rule float64_round_eval) (simp_all add: powr_minus divide_simps)
  moreover have "?x / 2 powr of_int (2 - 52) = (504403158265495600 / 64 :: real)"
    by (simp add: powr_minus divide_simps)
  moreover have "round_half_even (504403158265495600 / 64) = 7881299347898369"
    by (rule round_half_even_up [of 7881299347898368, simplified]) simp_all
  ultimately show ?thesis by (simp add: powr_minus divide_simps)
qed

lemma fl_7_10: "float64_round (7 / 10) = 6305039478318694 / 2 ^ 53"
proof -
  have "float64_round (7 / 10) =
          of_int (round_half_even ((7 / 10) / 2 powr of_int (- 1 - 52))) * 2 powr of_int (- 1 - 52)"
    by (rule float64_round_eval) (simp_all add: powr_minus divide_simps)
  moreover have "(7 / 10) / 2 powr of_int (- 1 - 52) = (7 * 2 ^ 53 / 10 :: real)"
    by (simp add: powr_minus divide_simps)
  moreover have "round_half_even (7 * 2 ^ 53 / 10) = 6305039478318694"
    by (rule round_half_even_down [of 6305039478318694, simplified]) simp_all
  ultimately show ?thesis by (simp add: powr_minus divide_simps)
qed

lemma fl_7_10_times: "float64_round (6305039478318694 / 2 ^ 53 * 100) = 70"
proof -
  let ?x = "6305039478318694 / 2 ^ 53 * 100 :: real"
  have "float64_round ?x =
          of_int (round_half_even (?x / 2 powr of_int (6 - 52))) * 2 powr of_int (6 - 52)"
    by (rule float64_round_eval) (simp_all add: powr_minus divide_simps)
  moreover have "?x / 2 powr of_int (6 - 52) = (630503947831869400 / 128 :: real)"
    by (simp add: powr_minus divide_simps)
  moreover have "round_half_even (630503947831869400 / 128) = 4925812092436480"
    by (rule round_half_even_up [of 4925812092436479, simplified]) simp_all
  ultimately show ?thesis by (simp add: powr_minus divide_simps)
qed

lemma percent_7_10:
  "float64_round (float64_round (float64_round (of_int 7) / float64_round (of_int 10)) * 100) = 70"
proof -
  have i: "float64_round 7 = 7" "float64_round 10 = 10"
    using float64_round_int [of 7] float64_round_int [of 10] by simp_all
  have "float64_round (float64_round (float64_round (of_int 7) / float64_round (of_int 10)) * 100)
          = float64_round (float64_round (7 / 10) * 100)"
    by (simp only: i of_int_numeral)
  also have "\<dots> = float64_round (6305039478318694 / 2 ^ 53 * 100)"
    by (simp only: fl_7_10)
  also have "\<dots> = 70"
    by (rule fl_7_10_times)
  finally show ?thesis .
qed

lemma percent_zero_covered:
  "float64_round (float64_round (float64_round (of_int 0) / float64_round (of_int n)) * 100) = 0"
  by (simp add: float64_round_def)

section \<open>Percentages\<close>

lemma percent_bounds:
  assumes c: "0 \<le> c" "c \<le> n" and n: "n \<noteq> 0"
  shows "0 \<le> float64_round (float64_round (float64_round (of_int c) / float64_round (of_int n)) * 100)
       \<and> float64_round (float64_round (float64_round (of_int c) / float64_round (of_int n)) * 100) \<le> 100"
proof -
  let ?fl = float64_round
  note m = float64_round_mono
  have f0: "?fl 0 = 0" by (simp add: float64_round_def)
  have "1 \<le> n" using c n by simp
  then have "(1::real) \<le> of_int n" by simp
  from m [OF _ this] float64_round_1 have n1: "1 \<le> ?fl (of_int n)" by simp
  have c0: "0 \<le> ?fl (of_int c)" using c by (intro float64_round_nonneg) simp
  have "(of_int c :: real) \<le> of_int n" using c by simp
  from m [OF _ this] c have cn: "?fl (of_int c) \<le> ?fl (of_int n)" by simp
  have q0: "0 \<le> ?fl (of_int c) / ?fl (of_int n)" using c0 n1 by simp
  have q1: "?fl (of_int c) / ?fl (of_int n) \<le> 1" using cn n1 by simp
  have r0: "0 \<le> ?fl (?fl (of_int c) / ?fl (of_int n))" using q0 by (rule float64_round_nonneg)
  from m [OF q0 q1] float64_round_1 have r1: "?fl (?fl (of_int c) / ?fl (of_int n)) \<le> 1" by simp
  have p0: "0 \<le> ?fl (?fl (of_int c) / ?fl (of_int n)) * 100" using r0 by simp
  then have lo: "0 \<le> ?fl (?fl (?fl (of_int c) / ?fl (of_int n)) * 100)"
    by (rule float64_round_nonneg)
  have "?fl (?fl (of_int c) / ?fl (of_int n)) * 100 \<le> 100" using r1 by simp
  from m [OF p0 this] float64_round_100
  have hi: "?fl (?fl (?fl (of_int c) / ?fl (of_int n)) * 100) \<le> 100" by simp
  from lo hi show ?thesis by simp
qed

lemma percent_close:
  assumes c: "0 < c" "c \<le> n" and n: "n < 2 ^ 53"
  shows "\<bar>float64_round (float64_round (float64_round (of_int c) / float64_round (of_int n)) * 100)
          - 100 * of_int c / of_int n\<bar>
         \<le> 100 * of_int c / of_int n * 2 powr (- 51)"
proof -
  let ?fl = float64_round
  let ?q = "of_int c / of_int n :: real"
  let ?eps = "(2::real) powr (- 53)"
  have fc: "?fl (of_int c) = of_int c" using c n by (intro float64_round_int) simp_all
  have fn: "?fl (of_int n) = of_int n" using c n by (intro float64_round_int) simp_all
  have n0: "(0::real) < of_int n" using c by simp
  have c1: "(1::real) \<le> of_int c" using c by simp
  have "(of_int n :: real) < of_int (2 ^ 53)" using n by (simp only: of_int_less_iff)
  then have n53: "(of_int n :: real) < 2 ^ 53" by simp
  have qlo: "1 / 2 ^ 53 \<le> ?q"
  proof -
    have "1 / 2 ^ 53 \<le> 1 / (of_int n :: real)" using n0 n53 by (simp add: frac_le)
    also have "\<dots> \<le> ?q" using c1 n0 by (simp add: divide_right_mono)
    finally show ?thesis .
  qed
  have q0: "0 < ?q" using c n0 by simp
  have e0: "0 < ?eps" "?eps \<le> 1 / 2" by (simp_all add: powr_minus divide_simps)
  have "2 powr (- 1022) \<le> (1 / 2 ^ 53 :: real)" by (simp add: powr_minus divide_simps)
  from this qlo have qn: "2 powr (- 1022) \<le> ?q" by (rule order_trans)
  from float64_round_error [OF qn] have d1: "\<bar>?fl ?q - ?q\<bar> \<le> ?q * ?eps" .
  then have flq_lo: "?q * (1 - ?eps) \<le> ?fl ?q" and flq_hi: "?fl ?q \<le> ?q * (1 + ?eps)"
    by (simp_all add: abs_le_iff algebra_simps)
  have "?q * (1 / 2) \<le> ?q * (1 - ?eps)" using q0 e0 by (intro mult_left_mono) simp_all
  with flq_lo have half: "?q / 2 \<le> ?fl ?q" by simp
  let ?r = "?fl ?q * 100"
  have "2 powr (- 1022) \<le> (1 / 2 ^ 53 :: real) / 2 * 100" by (simp add: powr_minus divide_simps)
  also have "\<dots> \<le> ?q / 2 * 100" using qlo by simp
  also have "\<dots> \<le> ?r" using half by simp
  finally have rn: "2 powr (- 1022) \<le> ?r" .
  from float64_round_error [OF rn] have d2: "\<bar>?fl ?r - ?r\<bar> \<le> ?r * ?eps" .
  have "\<bar>?fl ?r - 100 * ?q\<bar> \<le> \<bar>?fl ?r - ?r\<bar> + \<bar>?r - 100 * ?q\<bar>" by simp
  also have "\<bar>?r - 100 * ?q\<bar> = 100 * \<bar>?fl ?q - ?q\<bar>" by (simp add: abs_if)
  also have "\<bar>?fl ?r - ?r\<bar> + 100 * \<bar>?fl ?q - ?q\<bar> \<le> ?r * ?eps + 100 * (?q * ?eps)"
    using d1 d2 by simp
  also have "?r * ?eps \<le> (?q * (1 + ?eps) * 100) * ?eps"
    using flq_hi e0 by (intro mult_right_mono) simp_all
  also have "?q * (1 + ?eps) * 100 * ?eps + 100 * (?q * ?eps) = 100 * ?q * (?eps * (2 + ?eps))"
    by (simp add: algebra_simps)
  also have "\<dots> \<le> 100 * ?q * (?eps * 4)"
    using q0 e0 by (intro mult_left_mono) simp_all
  also have "?eps * 4 = 2 powr (- 51)" by (simp add: powr_minus divide_simps)
  finally have "\<bar>?fl ?r - 100 * ?q\<bar> \<le> 100 * ?q * 2 powr (- 51)" by simp
  then show ?thesis by (simp add: fc fn)
qed

lemma percent_7_100:
  "float64_round (float64_round (float64_round (of_int 7) / float64_round (of_int 100)) * 100)
     = 7881299347898369 / 2 ^ 50"
proof -
  have i: "float64_round 7 = 7" "float64_round 100 = 100"
    using float64_round_int [of 7] float64_round_int [of 100] by simp_all
  have "float64_round (float64_round (float64_round (of_int 7) / float64_round (of_int 100)) * 100)
          = float64_round (float64_round (7 / 100) * 100)"
    by (simp only: i of_int_numeral)
  also have "\<dots> = float64_round (5044031582654956 / 2 ^ 56 * 100)"
    by (simp only: fl_7_100)
  also have "\<dots> = 7881299347898369 / 2 ^ 50"
    by (rule fl_7_100_times)
  finally show ?thesis .
qed

text \<open>
  C3, as amended. The percentage that \<open>openHeadingHTML\<close> and \<open>fileItemHTML\<close> print
  is 0 when \<open>numStmt = 0\<close>. Otherwise it is the float64 value of
  \<open>float64(numStmtCovered) / float64(numStmt) * 100\<close>; for
  \<open>0 \<le> numStmtCovered \<le> numStmt < 2 ^ 53\<close> it differs from
  \<open>100 * numStmtCovered / numStmt\<close> by at most the fraction \<open>2 ^ -51\<close> of that number.
  When \<open>0 \<le> numStmtCovered \<le> numStmt\<close> it lies between 0 and 100.
\<close>

theorem percentage_value_and_bounds:
  "(numStmt = 0 \<longrightarrow>
      openHeadingHTML_percent numStmtCovered numStmt = 0 \<and>
      fileItemHTML_percent numStmtCovered numStmt = 0) \<and>
   (0 \<le> numStmtCovered \<and> numStmtCovered \<le> numStmt \<and> numStmt \<noteq> 0 \<and> numStmt < 2 ^ 53 \<longrightarrow>
      \<bar>openHeadingHTML_percent numStmtCovered numStmt
         - 100 * real_of_int numStmtCovered / real_of_int numStmt\<bar>
        \<le> 100 * real_of_int numStmtCovered / real_of_int numStmt * 2 powr (- 51) \<and>
      \<bar>fileItemHTML_percent numStmtCovered numStmt
         - 100 * real_of_int numStmtCovered / real_of_int numStmt\<bar>
        \<le> 100 * real_of_int numStmtCovered / real_of_int numStmt * 2 powr (- 51)) \<and>
   (0 \<le> numStmtCovered \<and> numStmtCovered \<le> numStmt \<longrightarrow>
      0 \<le> openHeadingHTML_percent numStmtCovered numStmt \<and>
      openHeadingHTML_percent numStmtCovered numStmt \<le> 100 \<and>
      0 \<le> fileItemHTML_percent numStmtCovered numStmt \<and>
      fileItemHTML_percent numStmtCovered numStmt \<le> 100)"
proof -
  let ?p = "float64_round (float64_round (float64_round (of_int numStmtCovered)
              / float64_round (of_int numStmt)) * 100)"
  let ?exact = "100 * real_of_int numStmtCovered / real_of_int numStmt"
  have defs: "openHeadingHTML_percent numStmtCovered numStmt = (if numStmt = 0 then 0 else ?p)"
    "fileItemHTML_percent numStmtCovered numStmt = (if numStmt = 0 then 0 else ?p)"
    by (simp_all add: openHeadingHTML_percent_def fileItemHTML_percent_def)
  have close: "\<bar>?p - ?exact\<bar> \<le> ?exact * 2 powr (- 51)"
    if h: "0 \<le> numStmtCovered" "numStmtCovered \<le> numStmt" "numStmt \<noteq> 0" "numStmt < 2 ^ 53"
  proof (cases "numStmtCovered = 0")
    case True
    then show ?thesis using percent_zero_covered [of numStmt] by simp
  next
    case False
    with h have "0 < numStmtCovered" by simp
    from percent_close [OF this h(2,4)] show ?thesis .
  qed
  have bounds: "0 \<le> ?p \<and> ?p \<le> 100"
    if h: "0 \<le> numStmtCovered" "numStmtCovered \<le> numStmt" "numStmt \<noteq> 0"
    using percent_bounds [OF h] .
  have z: "numStmt = 0 \<longrightarrow>
      openHeadingHTML_percent numStmtCovered numStmt = 0 \<and>
      fileItemHTML_percent numStmtCovered numStmt = 0"
    by (simp add: openHeadingHTML_percent_def fileItemHTML_percent_def)
  have c: "0 \<le> numStmtCovered \<and> numStmtCovered \<le> numStmt \<and> numStmt \<noteq> 0 \<and> numStmt < 2 ^ 53 \<longrightarrow>
      \<bar>openHeadingHTML_percent numStmtCovered numStmt - ?exact\<bar> \<le> ?exact * 2 powr (- 51) \<and>
      \<bar>fileItemHTML_percent numStmtCovered numStmt - ?exact\<bar> \<le> ?exact * 2 powr (- 51)"
    using close by (simp add: defs)
  have b: "0 \<le> numStmtCovered \<and> numStmtCovered \<le> numStmt \<longrightarrow>
      0 \<le> openHeadingHTML_percent numStmtCovered numStmt \<and>
      openHeadingHTML_percent numStmtCovered numStmt \<le> 100 \<and>
      0 \<le> fileItemHTML_percent numStmtCovered numStmt \<and>
      fileItemHTML_percent numStmtCovered numStmt \<le> 100"
    using bounds by (simp add: defs)
  show ?thesis by (intro conjI) (rule z, rule c, rule b)
qed

theorem percentage_value_and_bounds_witness:
  "(0::int) \<le> 7 \<and> (7::int) \<le> 100 \<and> (100::int) \<noteq> 0 \<and> (100::int) < 2 ^ 53 \<and>
   \<bar>openHeadingHTML_percent 7 100 - 100 * real_of_int 7 / real_of_int 100\<bar>
     \<le> 100 * real_of_int 7 / real_of_int 100 * 2 powr (- 51) \<and>
   0 \<le> fileItemHTML_percent 7 100 \<and> fileItemHTML_percent 7 100 \<le> 100 \<and>
   openHeadingHTML_percent 5 0 = 0"
proof -
  note T = percentage_value_and_bounds [of 100 7]
  have h: "(0::int) \<le> 7 \<and> (7::int) \<le> 100 \<and> (100::int) \<noteq> 0 \<and> (100::int) < 2 ^ 53" by simp
  have h': "(0::int) \<le> 7 \<and> (7::int) \<le> 100" by simp
  from T [THEN conjunct2, THEN conjunct1, rule_format, OF h]
  have c: "\<bar>openHeadingHTML_percent 7 100 - 100 * real_of_int 7 / real_of_int 100\<bar>
     \<le> 100 * real_of_int 7 / real_of_int 100 * 2 powr (- 51)" by (rule conjunct1)
  from T [THEN conjunct2, THEN conjunct2, rule_format, OF h']
  have b: "0 \<le> fileItemHTML_percent 7 100" "fileItemHTML_percent 7 100 \<le> 100" by blast+
  have z: "openHeadingHTML_percent 5 0 = 0"
    using percentage_value_and_bounds [of 0 5, THEN conjunct1] by simp
  from h c b z show ?thesis by (intro conjI) simp_all
qed

text \<open>
  C3 as stated fails by the rounding: for 7 statements covered of 100 the percentage is
  \<open>7 + 2 ^ -50\<close> (printed in full, 7.000000000000001), not \<open>100 * 7 / 100\<close>.
\<close>

theorem percentage_value_counterexample:
  "(100::int) \<noteq> 0 \<and>
   openHeadingHTML_percent 7 100 = 7 + 1 / 2 ^ 50 \<and>
   openHeadingHTML_percent 7 100 \<noteq> 100 * real_of_int 7 / real_of_int 100"
proof -
  have "openHeadingHTML_percent 7 100 = 7881299347898369 / 2 ^ 50"
    using percent_7_100 by (simp add: openHeadingHTML_percent_def)
  then show ?thesis by simp
qed

text \<open>
  \<open>fileItemHTML\<close> has the cutlines 70 and 40 built in, and gives safe only above 70:
  7 statements covered of 10 are 70 percent, also after rounding, and the class is
  warning.
\<close>

lemma fileItemHTML_class_at_70:
  "fileItemHTML_percent 7 10 = 70 \<and> fileItemHTML_class 7 10 = ''warning''"
  using percent_7_10 by (simp add: fileItemHTML_class_def fileItemHTML_percent_def)

section \<open>The display root\<close>

lemma single_child_dir_iff:
  "single_child_dir d \<longleftrightarrow> length (SubDirs d) = 1 \<and> length (Files d) = 0"
  by (auto simp: single_child_dir_def)

lemma Report_descend_collapses: "collapses_to d (Report_descend d)"
proof (induction d rule: Report_descend.induct)
  case (1 initialDir)
  show ?case
  proof (cases "single_child_dir initialDir")
    case True
    then have c: "length (SubDirs initialDir) = 1 \<and> length (Files initialDir) = 0"
      by (simp add: single_child_dir_iff)
    then have h: "hd (SubDirs initialDir) = SubDirs initialDir ! 0"
      by (cases "SubDirs initialDir") simp_all
    have "collapses_to (SubDirs initialDir ! 0) (Report_descend (SubDirs initialDir ! 0))"
      using 1 c by simp
    then have "collapses_to initialDir (Report_descend (SubDirs initialDir ! 0))"
      using True h by (auto intro: collapses_to.step)
    then show ?thesis using c by (subst Report_descend.simps) simp
  next
    case False
    then have "\<not> (length (SubDirs initialDir) = 1 \<and> length (Files initialDir) = 0)"
      by (simp add: single_child_dir_iff)
    then have "Report_descend initialDir = initialDir"
      by (subst Report_descend.simps) (simp only: if_False)
    then show ?thesis using False by (simp add: collapses_to.stop)
  qed
qed

lemma collapses_to_unique:
  assumes "collapses_to d a" "collapses_to d b"
  shows "a = b"
  using assms
proof (induction arbitrary: b rule: collapses_to.induct)
  case (stop d)
  from stop(2) stop(1) show ?case by (cases rule: collapses_to.cases) auto
next
  case (step d d')
  from step(4) step(1) have "collapses_to (hd (SubDirs d)) b"
    by (cases rule: collapses_to.cases) auto
  then show ?case by (rule step.IH)
qed

lemma collapses_to_stops: "collapses_to d a \<Longrightarrow> \<not> single_child_dir a"
  by (induction rule: collapses_to.induct) auto

text \<open>
  C4, as amended. When the root path of the project is \<open>"."\<close>, the initial directory
  of \<open>Report\<close> is the directory that the collapsing rule reaches from the root:
  descending while the directory has exactly one child and that child is a directory,
  and it is the only such directory. For any other root path it is the root itself. With
  the root path \<open>"."\<close>, a root whose only child is a directory with two files has that
  directory as its initial directory.
\<close>

theorem display_root:
  "(RootPath gp = ''.'' \<longrightarrow>
      collapses_to rootDir (Report_initialDir gp rootDir) \<and>
      (\<forall>d. collapses_to rootDir d \<longrightarrow> d = Report_initialDir gp rootDir)) \<and>
   (RootPath gp \<noteq> ''.'' \<longrightarrow> Report_initialDir gp rootDir = rootDir) \<and>
   (RootPath gp = ''.'' \<longrightarrow>
      Report_initialDir gp (GoDir r [GoDir p ds [f1, f2]] []) = GoDir p ds [f1, f2])"
proof -
  have "Report_descend (GoDir p ds [f1, f2]) = GoDir p ds [f1, f2]"
    by (subst Report_descend.simps) simp
  then have "Report_descend (GoDir r [GoDir p ds [f1, f2]] []) = GoDir p ds [f1, f2]"
    by (subst Report_descend.simps) simp
  then show ?thesis
    using Report_descend_collapses [of rootDir] collapses_to_unique
    by (auto simp: Report_initialDir_def)
qed

theorem display_root_witness:
  "RootPath \<lparr>RootPath = ''.'', ProjectCutlines = \<lparr>Safe = Finite 70, Warning = Finite 40\<rparr>\<rparr> = ''.'' \<and>
   collapses_to root_ex pkg_ex \<and>
   Report_initialDir \<lparr>RootPath = ''.'', ProjectCutlines = \<lparr>Safe = Finite 70, Warning = Finite 40\<rparr>\<rparr> root_ex = pkg_ex"
proof -
  let ?gp = "\<lparr>RootPath = ''.'', ProjectCutlines = \<lparr>Safe = Finite 70, Warning = Finite 40\<rparr>\<rparr>"
  have r: "RootPath ?gp = ''.''" by simp
  from display_root [of ?gp root_ex "item0 ''root''" "item0 ''pkg''" "[]"
      "file0 ''pkg/a.go''" "file0 ''pkg/b.go''"] r
  have c: "collapses_to root_ex (Report_initialDir ?gp root_ex)"
    and e: "Report_initialDir ?gp (GoDir (item0 ''root'') [GoDir (item0 ''pkg'') [] [file0 ''pkg/a.go'', file0 ''pkg/b.go'']] [])
            = GoDir (item0 ''pkg'') [] [file0 ''pkg/a.go'', file0 ''pkg/b.go'']"
    by blast+
  from e have e': "Report_initialDir ?gp root_ex = pkg_ex"
    by (simp only: root_ex_def pkg_ex_def)
  from c e' r show ?thesis by simp
qed

text \<open>
  C4 as stated fails for a root path other than \<open>"."\<close>: the collapsing rule leads
  from the root of the example to \<open>pkg\<close>, and the initial directory is the root.
\<close>

theorem display_root_counterexample:
  "collapses_to root_ex pkg_ex \<and>
   Report_initialDir \<lparr>RootPath = ''example.com/mod'', ProjectCutlines = \<lparr>Safe = Finite 70, Warning = Finite 40\<rparr>\<rparr> root_ex = root_ex \<and>
   root_ex \<noteq> pkg_ex"
proof -
  have "\<not> single_child_dir pkg_ex" by (simp add: single_child_dir_def pkg_ex_def)
  then have "collapses_to pkg_ex pkg_ex" by (rule collapses_to.stop)
  moreover have "single_child_dir root_ex" "hd (SubDirs root_ex) = pkg_ex"
    by (simp_all add: single_child_dir_def root_ex_def)
  ultimately have "collapses_to root_ex pkg_ex" by (auto intro: collapses_to.step)
  then show ?thesis
    by (simp add: Report_initialDir_def root_ex_def pkg_ex_def)
qed

section \<open>The report projector\<close>

lemma keys_append_item: "map view_key (Views (append_item k it td)) = map view_key (Views td)"
proof (cases "k < length (Views td)")
  case True
  then show ?thesis
    by (simp add: append_item_def map_update view_key_def list_update_same_conv)
next
  case False
  then show ?thesis by (simp add: append_item_def list_update_beyond not_less)
qed

lemma AddFile_keys:
  assumes "ReadFile (ABSPath file) \<noteq> None"
  shows "\<exists>td'. AddFile ReadFile file td = Inr td' \<and>
           map view_key (Views td') = map view_key (Views td) @ [node_key (FileNode file)]"
  using assms by (auto simp: AddFile_def view_key_def)

lemma AddDir_files_keys:
  assumes "readable ReadFile fs"
  shows "\<exists>td'. AddDir_files Percent ReadFile k fs td = Inr td' \<and>
           map view_key (Views td') = map view_key (Views td) @ map node_key (map FileNode fs)"
  using assms
proof (induction fs arbitrary: td)
  case Nil
  then show ?case by simp
next
  case (Cons f rest)
  then have r: "ReadFile (ABSPath f) \<noteq> None" and rr: "readable ReadFile rest"
    by (simp_all add: readable_def)
  from AddFile_keys [of ReadFile f td, OF r] obtain td1 where
    a: "AddFile ReadFile f td = Inr td1" and
    k1: "map view_key (Views td1) = map view_key (Views td) @ [node_key (FileNode f)]"
    by blast
  let ?td2 = "append_item k (NewTemplateListItemData Percent (FileItem f) (DataCutlines td1)) td1"
  from Cons.IH [OF rr, of ?td2] obtain td' where
    b: "AddDir_files Percent ReadFile k rest ?td2 = Inr td'" and
    k2: "map view_key (Views td') = map view_key (Views ?td2) @ map node_key (map FileNode rest)"
    by blast
  show ?case using a b k1 k2 by (simp add: keys_append_item)
qed

lemma AddDir_keys_both:
  "(readable ReadFile (all_files dir) \<longrightarrow>
     (\<exists>td'. AddDir Percent ReadFile dir td = Inr td' \<and>
        map view_key (Views td') = map view_key (Views td) @ map node_key (preorder dir)))"
  "(readable ReadFile (concat (map all_files ds)) \<longrightarrow>
     (\<exists>td'. AddDir_subDirs Percent ReadFile k ds td = Inr td' \<and>
        map view_key (Views td') =
          map view_key (Views td) @ map node_key (concat (map preorder ds))))"
proof (induction Percent ReadFile dir td and Percent ReadFile k ds td
       rule: AddDir_AddDir_subDirs.induct)
  case (1 Percent ReadFile item dirs fls td)
  show ?case
  proof
    assume r: "readable ReadFile (all_files (GoDir item dirs fls))"
    then have rd: "readable ReadFile (concat (map all_files dirs))"
      and rf: "readable ReadFile fls"
      by (simp_all add: readable_def)
    let ?k = "length (Views td)"
    let ?view = "\<lparr>ViewID = ID item, NumStmtCovered = StmtCoveredCount item,
                  NumStmt = StmtCount item, Items = [], Lines = [], IsDir = True\<rparr>"
    let ?td1 = "td\<lparr>Views := Views td @ [?view]\<rparr>"
    from 1 [of ?k ?view ?td1] rd obtain td2 where
      a: "AddDir_subDirs Percent ReadFile ?k dirs ?td1 = Inr td2" and
      k2: "map view_key (Views td2) =
             map view_key (Views ?td1) @ map node_key (concat (map preorder dirs))"
      by auto
    from AddDir_files_keys [of ReadFile fls Percent ?k td2, OF rf] obtain td' where
      b: "AddDir_files Percent ReadFile ?k fls td2 = Inr td'" and
      k3: "map view_key (Views td') = map view_key (Views td2) @ map node_key (map FileNode fls)"
      by blast
    have "AddDir Percent ReadFile (GoDir item dirs fls) td = Inr td'"
      using a b by (simp add: Let_def)
    moreover have "map view_key (Views td') =
        map view_key (Views td) @ map node_key (preorder (GoDir item dirs fls))"
      using k2 k3 by (simp add: view_key_def)
    ultimately show "\<exists>td'. AddDir Percent ReadFile (GoDir item dirs fls) td = Inr td' \<and>
        map view_key (Views td') =
          map view_key (Views td) @ map node_key (preorder (GoDir item dirs fls))"
      by blast
  qed
next
  case (2 Percent ReadFile k td)
  then show ?case by simp
next
  case (3 Percent ReadFile k subDir rest td)
  show ?case
  proof
    assume r: "readable ReadFile (concat (map all_files (subDir # rest)))"
    then have r1: "readable ReadFile (all_files subDir)"
      and r2: "readable ReadFile (concat (map all_files rest))"
      by (simp_all add: readable_def)
    from 3(1) r1 obtain td1 where
      a: "AddDir Percent ReadFile subDir td = Inr td1" and
      k1: "map view_key (Views td1) = map view_key (Views td) @ map node_key (preorder subDir)"
      by auto
    let ?td2 = "append_item k (NewTemplateListItemData Percent (DirItem subDir) (DataCutlines td1)) td1"
    from 3(2) [OF a] r2 obtain td' where
      b: "AddDir_subDirs Percent ReadFile k rest ?td2 = Inr td'" and
      k2: "map view_key (Views td') =
             map view_key (Views ?td2) @ map node_key (concat (map preorder rest))"
      by auto
    show "\<exists>td'. AddDir_subDirs Percent ReadFile k (subDir # rest) td = Inr td' \<and>
        map view_key (Views td') =
          map view_key (Views td) @ map node_key (concat (map preorder (subDir # rest)))"
      using a b k1 k2 by (simp add: keys_append_item)
  qed
qed

lemma length_preorder: "length (preorder d) = count_nodes d"
proof (induction d rule: preorder.induct)
  case (1 item dirs fls)
  have "length (concat (map preorder dirs)) = sum_list (map count_nodes dirs)"
    using 1 by (simp add: length_concat comp_def cong: map_cong)
  then show ?case by simp
qed

text \<open>
  When a file below the directory cannot be read, \<open>AddDir\<close> returns the error of
  \<open>AddFile\<close>, and so does \<open>Report\<close>.
\<close>

lemma AddDir_files_unreadable:
  assumes "\<not> readable ReadFile fs"
  shows "\<exists>err. AddDir_files Percent ReadFile k fs td = Inl err"
  using assms
proof (induction fs arbitrary: td)
  case Nil
  then show ?case by (simp add: readable_def)
next
  case (Cons f rest)
  show ?case
  proof (cases "ReadFile (ABSPath f)")
    case None
    then show ?thesis by (simp add: AddFile_def)
  next
    case (Some src)
    with Cons.prems have "\<not> readable ReadFile rest" by (simp add: readable_def)
    from Cons.IH [OF this] Some show ?thesis by (simp add: AddFile_def)
  qed
qed

lemma AddDir_unreadable_both:
  "(\<not> readable ReadFile (all_files dir) \<longrightarrow>
     (\<exists>err. AddDir Percent ReadFile dir td = Inl err))"
  "(\<not> readable ReadFile (concat (map all_files ds)) \<longrightarrow>
     (\<exists>err. AddDir_subDirs Percent ReadFile k ds td = Inl err))"
proof (induction Percent ReadFile dir td and Percent ReadFile k ds td
       rule: AddDir_AddDir_subDirs.induct)
  case (1 Percent ReadFile item dirs fls td)
  show ?case
  proof
    assume n: "\<not> readable ReadFile (all_files (GoDir item dirs fls))"
    let ?k = "length (Views td)"
    let ?view = "\<lparr>ViewID = ID item, NumStmtCovered = StmtCoveredCount item,
                  NumStmt = StmtCount item, Items = [], Lines = [], IsDir = True\<rparr>"
    let ?td1 = "td\<lparr>Views := Views td @ [?view]\<rparr>"
    show "\<exists>err. AddDir Percent ReadFile (GoDir item dirs fls) td = Inl err"
    proof (cases "AddDir_subDirs Percent ReadFile ?k dirs ?td1")
      case (Inl err)
      then show ?thesis by (simp add: Let_def)
    next
      case (Inr td2)
      with 1 [of ?k ?view ?td1] have "readable ReadFile (concat (map all_files dirs))"
        by auto
      with n have "\<not> readable ReadFile fls" by (simp add: readable_def)
      from AddDir_files_unreadable [OF this, of Percent ?k td2] Inr
      show ?thesis by (auto simp: Let_def)
    qed
  qed
next
  case (2 Percent ReadFile k td)
  then show ?case by (simp add: readable_def)
next
  case (3 Percent ReadFile k subDir rest td)
  show ?case
  proof
    assume n: "\<not> readable ReadFile (concat (map all_files (subDir # rest)))"
    show "\<exists>err. AddDir_subDirs Percent ReadFile k (subDir # rest) td = Inl err"
    proof (cases "AddDir Percent ReadFile subDir td")
      case (Inl err)
      then show ?thesis by simp
    next
      case (Inr td')
      with 3(1) have "readable ReadFile (all_files subDir)" by auto
      with n have "\<not> readable ReadFile (concat (map all_files rest))"
        by (simp add: readable_def)
      with 3(2) [OF Inr] Inr show ?thesis by auto
    qed
  qed
qed

lemma Report_unreadable:
  assumes "\<not> readable ReadFile (all_files (Report_initialDir gp rootDir))"
  shows "\<exists>err. Report Percent ReadFile gp rootDir = Inl err"
  using AddDir_unreadable_both(1) [of ReadFile "Report_initialDir gp rootDir" Percent] assms
  by (simp add: Report_def Let_def)

lemma list_all2_keys:
  "list_all2 is_view_of vs ns \<longleftrightarrow> map view_key vs = map node_key ns"
proof -
  have "list_all2 is_view_of vs ns \<longleftrightarrow> list_all2 (=) (map view_key vs) (map node_key ns)"
    by (simp add: list_all2_map1 list_all2_map2 is_view_of_def [abs_def])
  then show ?thesis by (simp add: list.rel_eq)
qed

text \<open>
  C5. When every file below the initial directory can be read, \<open>Report\<close> builds the
  template data, and its views are the views of the nodes reachable from the initial
  directory, one view per node and in pre-order: the list of views and the pre-order
  list of nodes have the same length, the number of nodes, and the view at each position
  is the view of the node at that position.
\<close>

theorem Report_views_preorder:
  assumes "readable ReadFile (all_files (Report_initialDir gp rootDir))"
  shows "\<exists>data. Report Percent ReadFile gp rootDir = Inr data \<and>
           list_all2 is_view_of (Views data) (preorder (Report_initialDir gp rootDir)) \<and>
           length (Views data) = count_nodes (Report_initialDir gp rootDir)"
proof -
  let ?dir = "Report_initialDir gp rootDir"
  let ?data0 = "\<lparr>Views = [], InitialID = ID (DirItem ?dir),
                  DataCutlines = ProjectCutlines gp\<rparr>"
  from AddDir_keys_both(1) [of ReadFile ?dir Percent ?data0] assms
  obtain data where a: "AddDir Percent ReadFile ?dir ?data0 = Inr data"
    and k: "map view_key (Views data) = map node_key (preorder ?dir)"
    by auto
  have r: "Report Percent ReadFile gp rootDir = Inr data"
    using a by (simp add: Report_def Let_def)
  from k have l: "list_all2 is_view_of (Views data) (preorder ?dir)"
    by (simp add: list_all2_keys)
  then have "length (Views data) = length (preorder ?dir)"
    by (rule list_all2_lengthD)
  then have n: "length (Views data) = count_nodes ?dir"
    by (simp add: length_preorder)
  from r l n show ?thesis by blast
qed

theorem Report_views_preorder_witness:
  "readable (\<lambda>path. Some ''package pkg'')
     (all_files (Report_initialDir \<lparr>RootPath = ''.'', ProjectCutlines = cutlines_3_5\<rparr> root_ex)) \<and>
   (\<exists>data. Report Percent_spec (\<lambda>path. Some ''package pkg'')
              \<lparr>RootPath = ''.'', ProjectCutlines = cutlines_3_5\<rparr> root_ex = Inr data \<and>
            length (Views data) = 3)"
proof -
  let ?gp = "\<lparr>RootPath = ''.'', ProjectCutlines = cutlines_3_5\<rparr>"
  let ?R = "\<lambda>path::string. Some ''package pkg''"
  have d: "Report_initialDir ?gp root_ex = pkg_ex"
    by (simp add: Report_initialDir_def root_ex_def pkg_ex_def Report_descend.simps)
  have r: "readable ?R (all_files (Report_initialDir ?gp root_ex))"
    by (simp add: readable_def list_all_iff)
  have c: "count_nodes (Report_initialDir ?gp root_ex) = 3"
    by (simp add: d pkg_ex_def)
  from Report_views_preorder [OF r, of Percent_spec] c
  have "\<exists>data. Report Percent_spec ?R ?gp root_ex = Inr data \<and> length (Views data) = 3"
    by auto
  with r show ?thesis by (intro conjI)
qed

section \<open>Identifiers\<close>

lemma Base_examples:
  "Base ''example.com/m/a'' = ''a''" "Base ''example.com/m/a-b'' = ''a-b''"
  "Base ''example.com/m/a/b-c.go'' = ''b-c.go''" "Base ''example.com/m/a-b/c.go'' = ''c.go''"
  by (simp_all add: Base_def strip_trailing_slashes_def)

text \<open>
  C7. The claim is that the identifiers of distinct nodes of a tree are distinct. The
  hyphen that joins the identifier of the parent and the base name can also occur in a
  base name: the file \<open>b-c.go\<close> of package \<open>a\<close> and the file \<open>c.go\<close> of package
  \<open>a-b\<close> both get the identifier \<open>root-a-b-c.go\<close>.
\<close>

theorem identifiers_collide:
  "Report_ids colliding_tree =
     [''root'', ''root-a'', ''root-a-b-c.go'', ''root-a-b'', ''root-a-b-c.go''] \<and>
   \<not> distinct (Report_ids colliding_tree)"
  by (simp add: Report_ids_def colliding_tree_def Base_examples)

section \<open>Cutlines\<close>

lemma ParseCutlines_eq:
  "ParseCutlines ParseFloat cutlines =
     (case ParseFloat (first_fragment cutlines) of
        Inl err \<Rightarrow> Inl (Failed err)
      | Inr safe \<Rightarrow>
          (case ParseFloat (last_fragment cutlines) of
             Inl err \<Rightarrow> Inl (Failed err)
           | Inr warning \<Rightarrow> Inr \<lparr>Safe = safe, Warning = warning\<rparr>))"
proof -
  let ?frags = "Split cutlines (CHR '','')"
  have ne: "?frags \<noteq> []" by (rule Split_nonempty)
  have e0: "?frags ! 0 = hd ?frags" using ne by (simp add: hd_conv_nth)
  have e1: "?frags ! (length ?frags - 1) = last ?frags" using ne by (simp add: last_conv_nth)
  show ?thesis
    unfolding ParseCutlines_def Let_def first_fragment_def last_fragment_def e0 e1
    using ne by simp
qed

text \<open>
  C10. \<open>ParseCutlines\<close> returns an error exactly when the first or the last fragment
  of its argument fails to parse, and it never indexes out of range. When it succeeds,
  \<open>Safe\<close> is the value of the first fragment and \<open>Warning\<close> the value of the last
  one; an argument without a comma is its own first and last fragment, so \<open>Safe\<close> and
  \<open>Warning\<close> are both its value; and two arguments with the same first and the same
  last fragment give the same result, whatever lies between.
\<close>

theorem ParseCutlines_first_and_last:
  "((\<exists>err. ParseCutlines ParseFloat cutlines = Inl err) \<longleftrightarrow>
      isl (ParseFloat (first_fragment cutlines)) \<or> isl (ParseFloat (last_fragment cutlines))) \<and>
   ParseCutlines ParseFloat cutlines \<noteq> Inl IndexOutOfRange \<and>
   (\<forall>c. ParseCutlines ParseFloat cutlines = Inr c \<longrightarrow>
      ParseFloat (first_fragment cutlines) = Inr (Safe c) \<and>
      ParseFloat (last_fragment cutlines) = Inr (Warning c)) \<and>
   (\<forall>c. CHR '','' \<notin> set cutlines \<and> ParseCutlines ParseFloat cutlines = Inr c \<longrightarrow>
      Safe c = Warning c \<and> ParseFloat cutlines = Inr (Safe c)) \<and>
   (\<forall>other. first_fragment other = first_fragment cutlines \<and>
      last_fragment other = last_fragment cutlines \<longrightarrow>
      ParseCutlines ParseFloat other = ParseCutlines ParseFloat cutlines)"
proof -
  have single: "first_fragment cutlines = cutlines \<and> last_fragment cutlines = cutlines"
    if "CHR '','' \<notin> set cutlines"
    using Split_no_sep [OF that] by (simp add: first_fragment_def last_fragment_def)
  show ?thesis
    unfolding ParseCutlines_eq [of ParseFloat]
    using single
    by (auto split: sum.splits)
qed

theorem ParseCutlines_first_and_last_witness:
  "ParseCutlines toy_ParseFloat ''3,x,7'' = Inr \<lparr>Safe = Finite 3, Warning = Finite 7\<rparr> \<and>
   ParseCutlines toy_ParseFloat ''3'' = Inr \<lparr>Safe = Finite 3, Warning = Finite 3\<rparr> \<and>
   CHR '','' \<notin> set ''3'' \<and>
   first_fragment ''3,5,7'' = first_fragment ''3,x,7'' \<and>
   last_fragment ''3,5,7'' = last_fragment ''3,x,7'' \<and>
   ParseCutlines toy_ParseFloat ''3,5,7'' = ParseCutlines toy_ParseFloat ''3,x,7'' \<and>
   isl (toy_ParseFloat (last_fragment ''3,x'')) \<and>
   (\<exists>err. ParseCutlines toy_ParseFloat ''3,x'' = Inl err)"
proof -
  have f: "first_fragment ''3,x,7'' = ''3''" "last_fragment ''3,x,7'' = ''7''"
    "first_fragment ''3,5,7'' = ''3''" "last_fragment ''3,5,7'' = ''7''"
    "first_fragment ''3,x'' = ''3''" "last_fragment ''3,x'' = ''x''"
    "first_fragment ''3'' = ''3''" "last_fragment ''3'' = ''3''"
    by (simp_all add: first_fragment_def last_fragment_def Split_Nil Split_Cons)
  have p: "ParseCutlines toy_ParseFloat ''3,x,7'' = Inr \<lparr>Safe = Finite 3, Warning = Finite 7\<rparr>"
    "ParseCutlines toy_ParseFloat ''3'' = Inr \<lparr>Safe = Finite 3, Warning = Finite 3\<rparr>"
    by (simp_all add: ParseCutlines_eq f toy_ParseFloat_def)
  note T = ParseCutlines_first_and_last [of toy_ParseFloat "''3,x,7''"]
  have m: "ParseCutlines toy_ParseFloat ''3,5,7'' = ParseCutlines toy_ParseFloat ''3,x,7''"
    by (rule T [THEN conjunct2, THEN conjunct2, THEN conjunct2, THEN conjunct2, rule_format])
      (simp add: f)
  have i: "isl (toy_ParseFloat (last_fragment ''3,x''))"
    by (simp add: f toy_ParseFloat_def)
  have e: "\<exists>err. ParseCutlines toy_ParseFloat ''3,x'' = Inl err"
    using ParseCutlines_first_and_last [of toy_ParseFloat "''3,x''", THEN conjunct1] i by simp
  from m i e p f show ?thesis by simp
qed

end
